theory Spec2Isabelle
  imports Main "HOL-Library.AList"
begin

section \<open>Python values, types and exceptions\<close>

text \<open>
  The values that travel through the agent loop are the ones \<^verbatim>\<open>json.loads\<close> builds and
  the ones a tool receives as keyword arguments: \<^verbatim>\<open>None\<close>, booleans, integers, floats,
  strings, lists and string-keyed dictionaries. A dictionary is an association list in
  insertion order with distinct keys, as a Python \<^verbatim>\<open>dict\<close> iterates. A float keeps the
  text of its literal: no operation of the modelled code computes with floats, only its
  type is ever inspected.
\<close>

datatype pyval =
    PNone
  | PBool bool
  | PInt int
  | PFloat string
  | PStr string
  | PList "pyval list"
  | PDict "(string \<times> pyval) list"

text \<open>The classes a tool may declare in \<^verbatim>\<open>input_parameters\<close> (\<^verbatim>\<open>Dict[str, type]\<close>).\<close>

datatype pytype = TObject | TNoneType | TBool | TInt | TFloat | TStr | TList | TDict

fun type_of :: "pyval \<Rightarrow> pytype" where
  "type_of PNone = TNoneType"
| "type_of (PBool b) = TBool"
| "type_of (PInt i) = TInt"
| "type_of (PFloat f) = TFloat"
| "type_of (PStr s) = TStr"
| "type_of (PList xs) = TList"
| "type_of (PDict kvs) = TDict"

text \<open>
  \<^verbatim>\<open>isinstance(v, t)\<close>: the class of \<^verbatim>\<open>v\<close> is \<^verbatim>\<open>t\<close> or a subclass of it. Every class derives
  from \<^verbatim>\<open>object\<close>, and \<^verbatim>\<open>bool\<close> derives from \<^verbatim>\<open>int\<close>; an \<^verbatim>\<open>int\<close> is not a \<^verbatim>\<open>float\<close>.
\<close>

definition isinstance :: "pyval \<Rightarrow> pytype \<Rightarrow> bool" where
  "isinstance v t \<longleftrightarrow> t = TObject \<or> type_of v = t \<or> (type_of v = TBool \<and> t = TInt)"

text \<open>
  The exceptions of the modelled code, one constructor for each \<^verbatim>\<open>raise\<close> and for each
  fault the interpreter raises on the way:
  \<^item> \<open>MissingParameter key tool\<close>: \<^verbatim>\<open>ValueError("Missing required parameter ...")\<close>, tool.py line 15;
  \<^item> \<open>WrongParameterType key expected got\<close>: \<^verbatim>\<open>TypeError("Parameter ... should be of type ...")\<close>,
    tool.py line 17;
  \<^item> \<open>NotAMapping\<close>: the \<^verbatim>\<open>TypeError\<close> the interpreter raises when \<^verbatim>\<open>args\<close> is no dictionary
    (\<^verbatim>\<open>key in 5\<close>, \<^verbatim>\<open>[..]["k"]\<close>, \<^verbatim>\<open>f(**[..])\<close>);
  \<^item> \<open>UnknownTool name\<close>: \<^verbatim>\<open>ValueError("Tool ... not found in agent's toolset.")\<close>, agent.py line 76;
  \<^item> \<open>Unhashable\<close>: the \<^verbatim>\<open>TypeError\<close> of \<^verbatim>\<open>tool_name not in self.tools\<close> for a list or a dict;
  \<^item> \<open>UnknownAgent name\<close>: \<^verbatim>\<open>ValueError("Router selected unknown agent ...")\<close>, pool.py line 39;
  \<^item> \<open>ZeroDivisionError\<close>: \<^verbatim>\<open>call_count % len(agent_names)\<close> with an empty list, router.py line 16;
  \<^item> \<open>KeyError key\<close>: a subscript with a key the dictionary does not have;
  \<^item> \<open>Fault cls msg\<close>: an exception raised by code outside the core (a wrapped callable,
    a model backend), with its class name and message.
\<close>

datatype error =
    MissingParameter string string
  | WrongParameterType string pytype pytype
  | NotAMapping
  | UnknownTool pyval
  | Unhashable
  | UnknownAgent string
  | ZeroDivisionError
  | KeyError string
  | Fault string string

fun exception_class :: "error \<Rightarrow> string" where
  "exception_class (MissingParameter k n) = ''ValueError''"
| "exception_class (WrongParameterType k t u) = ''TypeError''"
| "exception_class NotAMapping = ''TypeError''"
| "exception_class (UnknownTool n) = ''ValueError''"
| "exception_class Unhashable = ''TypeError''"
| "exception_class (UnknownAgent n) = ''ValueError''"
| "exception_class ZeroDivisionError = ''ZeroDivisionError''"
| "exception_class (KeyError k) = ''KeyError''"
| "exception_class (Fault c m) = c"

section \<open>Tool (core/tool.py)\<close>

text \<open>
  A tool has the four attributes its constructor stores. The wrapped callable receives the
  keyword arguments and the state of the world outside the program; it returns a value or
  raises, and leaves a new world. A Python function that does not accept one of the
  keywords raises \<^verbatim>\<open>TypeError\<close> when called: that is a fault of the callable here.
\<close>

type_synonym kwargs = "(string \<times> pyval) list"

record 'w Tool =
  name :: string
  description :: string
  input_parameters :: "(string \<times> pytype) list"
  call_function :: "kwargs \<Rightarrow> 'w \<Rightarrow> (error + pyval) \<times> 'w"

text \<open>
  The body of the \<^verbatim>\<open>for\<close> loop of \<^verbatim>\<open>Tool.run\<close> for one declared parameter. With a dictionary
  it is the two checks of lines 14 to 17. \<^verbatim>\<open>args\<close> is not checked to be a dictionary (the
  agent passes whatever the model wrote under \<^verbatim>\<open>"args"\<close>): on a string \<^verbatim>\<open>key not in args\<close> is
  a substring test and on a list a membership test, and when they find the key
  \<^verbatim>\<open>args[key]\<close> raises \<^verbatim>\<open>TypeError\<close>; on any other value \<^verbatim>\<open>in\<close> itself raises \<^verbatim>\<open>TypeError\<close>.
\<close>

fun is_substring :: "string \<Rightarrow> string \<Rightarrow> bool" where
  "is_substring k [] = (k = [])"
| "is_substring k (c # cs) = (take (length k) (c # cs) = k \<or> is_substring k cs)"

fun check_parameter :: "string \<Rightarrow> pyval \<Rightarrow> string \<Rightarrow> pytype \<Rightarrow> error option" where
  "check_parameter tool_name (PDict kvs) key expected_type =
     (case map_of kvs key of
        None \<Rightarrow> Some (MissingParameter key tool_name)
      | Some v \<Rightarrow>
          if \<not> isinstance v expected_type
          then Some (WrongParameterType key expected_type (type_of v))
          else None)"
| "check_parameter tool_name (PStr s) key expected_type =
     (if \<not> is_substring key s then Some (MissingParameter key tool_name)
      else Some NotAMapping)"
| "check_parameter tool_name (PList xs) key expected_type =
     (if PStr key \<notin> set xs then Some (MissingParameter key tool_name)
      else Some NotAMapping)"
| "check_parameter tool_name v key expected_type = Some NotAMapping"

text \<open>The \<^verbatim>\<open>for\<close> loop: the declared parameters in order, stopping at the first \<^verbatim>\<open>raise\<close>.\<close>

fun validate :: "string \<Rightarrow> pyval \<Rightarrow> (string \<times> pytype) list \<Rightarrow> error option" where
  "validate tool_name args [] = None"
| "validate tool_name args ((key, expected_type) # ps) =
     (case check_parameter tool_name args key expected_type of
        Some e \<Rightarrow> Some e
      | None \<Rightarrow> validate tool_name args ps)"

text \<open>
  The outcome of a call of \<^verbatim>\<open>Tool.run\<close>: what it returns or raises, the keyword arguments
  of every invocation of the wrapped callable it made, in order, and the world it leaves.
\<close>

record 'w tool_outcome =
  result :: "error + pyval"
  invocations :: "kwargs list"
  world :: 'w

text \<open>
  \<^verbatim>\<open>Tool.run\<close>: validation, then \<^verbatim>\<open>return self.call_function(**args)\<close>, once. \<^verbatim>\<open>**args\<close> on a
  value that is no dictionary raises \<^verbatim>\<open>TypeError\<close> before the callable is entered.
\<close>

definition Tool_run :: "'w Tool \<Rightarrow> pyval \<Rightarrow> 'w \<Rightarrow> 'w tool_outcome" where
  "Tool_run tool args w =
     (case validate (Tool.name tool) args (input_parameters tool) of
        Some e \<Rightarrow> \<lparr>result = Inl e, invocations = [], world = w\<rparr>
      | None \<Rightarrow>
          (case args of
             PDict kvs \<Rightarrow>
               (let (r, w') = call_function tool kvs w
                in \<lparr>result = r, invocations = [kvs], world = w'\<rparr>)
           | _ \<Rightarrow> \<lparr>result = Inl NotAMapping, invocations = [], world = w\<rparr>))"

section \<open>The JSON decoder and the regular expression of the response parser\<close>

text \<open>
  \<^verbatim>\<open>Agent._parse_tool_call\<close> calls three library functions: \<^verbatim>\<open>str.strip\<close>, \<^verbatim>\<open>json.loads\<close> and
  \<^verbatim>\<open>re.search\<close> with a fixed pattern. They are modelled on 8-bit text.
\<close>

subsection \<open>\<^verbatim>\<open>str.strip\<close>\<close>

text \<open>
  The characters below U+0100 that \<^verbatim>\<open>str.isspace\<close> accepts, which are also those that \<^verbatim>\<open>\s\<close>
  matches in a \<^verbatim>\<open>str\<close> pattern: TAB to CR, FS to US, space, NEL and NBSP.
\<close>

definition isspace :: "char \<Rightarrow> bool" where
  "isspace c \<longleftrightarrow>
     (let n = (of_char c :: nat)
      in (9 \<le> n \<and> n \<le> 13) \<or> (28 \<le> n \<and> n \<le> 32) \<or> n = 133 \<or> n = 160)"

definition strip :: "string \<Rightarrow> string" where
  "strip s = rev (dropWhile isspace (rev (dropWhile isspace s)))"

subsection \<open>\<^verbatim>\<open>json.loads\<close>\<close>

text \<open>
  The decoder of the standard library with its default settings, as a recursive descent
  on the text: the four JSON whitespace characters between tokens; strings in strict mode
  (no control character, the escapes of RFC 8259); numbers by the decoder's pattern
  \<^verbatim>\<open>(-?(?:0|[1-9][0-9]*))(\.[0-9]+)?([eE][-+]?[0-9]+)?\<close>, an \<^verbatim>\<open>int\<close> without fraction and exponent and a
  \<^verbatim>\<open>float\<close> otherwise; the constants \<^verbatim>\<open>null\<close>, \<^verbatim>\<open>true\<close>, \<^verbatim>\<open>false\<close>, \<^verbatim>\<open>NaN\<close>, \<^verbatim>\<open>Infinity\<close>, \<^verbatim>\<open>-Infinity\<close>;
  an object becomes a \<^verbatim>\<open>dict\<close>, where a repeated key keeps its first position and its last
  value. \<open>None\<close> stands for \<^verbatim>\<open>JSONDecodeError\<close>.

  Two limits of the model: an escape \<^verbatim>\<open>\uXXXX\<close> above U+00FF has no 8-bit character and is
  rejected here, and the interpreter's bounds on nesting depth and on the number of digits
  of an integer are absent.
\<close>

definition json_ws :: "char \<Rightarrow> bool" where
  "json_ws c \<longleftrightarrow> c = CHR '' '' \<or> c = CHR 0x09 \<or> c = CHR 0x0A \<or> c = CHR 0x0D"

definition skip_ws :: "string \<Rightarrow> string" where
  "skip_ws s = dropWhile json_ws s"

definition is_digit :: "char \<Rightarrow> bool" where
  "is_digit c \<longleftrightarrow> (48::nat) \<le> of_char c \<and> (of_char c :: nat) \<le> 57"

definition hex_val :: "char \<Rightarrow> nat option" where
  "hex_val c =
     (let n = (of_char c :: nat)
      in if 48 \<le> n \<and> n \<le> 57 then Some (n - 48)
         else if 97 \<le> n \<and> n \<le> 102 then Some (n - 87)
         else if 65 \<le> n \<and> n \<le> 70 then Some (n - 55)
         else None)"

definition hex4 :: "char \<Rightarrow> char \<Rightarrow> char \<Rightarrow> char \<Rightarrow> nat option" where
  "hex4 a b c d =
     (case (hex_val a, hex_val b, hex_val c, hex_val d) of
        (Some x, Some y, Some z, Some u) \<Rightarrow> Some (((x * 16 + y) * 16 + z) * 16 + u)
      | _ \<Rightarrow> None)"

text \<open>The character a one-letter escape stands for.\<close>

definition unescape :: "char \<Rightarrow> char option" where
  "unescape e =
     (if e = CHR 0x22 then Some (CHR 0x22)
      else if e = CHR 0x5C then Some (CHR 0x5C)
      else if e = CHR ''/'' then Some (CHR ''/'')
      else if e = CHR ''b'' then Some (CHR 0x08)
      else if e = CHR ''f'' then Some (CHR 0x0C)
      else if e = CHR ''n'' then Some (CHR 0x0A)
      else if e = CHR ''r'' then Some (CHR 0x0D)
      else if e = CHR ''t'' then Some (CHR 0x09)
      else None)"

text \<open>\<open>scanstring s\<close>: the text after an opening quote; the decoded string and what follows
  the closing quote.\<close>

fun scanstring :: "string \<Rightarrow> (string \<times> string) option" where
  "scanstring [] = None"
| "scanstring (c # cs) =
     (if c = CHR 0x22 then Some ([], cs)
      else if c = CHR 0x5C then
        (case cs of
           [] \<Rightarrow> None
         | e # es \<Rightarrow>
             if e = CHR ''u'' then
               (case es of
                  h1 # h2 # h3 # h4 # r \<Rightarrow>
                    (case hex4 h1 h2 h3 h4 of
                       None \<Rightarrow> None
                     | Some n \<Rightarrow>
                         if n < 256 then
                           (case scanstring r of
                              None \<Rightarrow> None
                            | Some (t, r') \<Rightarrow> Some (char_of n # t, r'))
                         else None)
                | _ \<Rightarrow> None)
             else
               (case unescape e of
                  None \<Rightarrow> None
                | Some x \<Rightarrow>
                    (case scanstring es of
                       None \<Rightarrow> None
                     | Some (t, r') \<Rightarrow> Some (x # t, r'))))
      else if (of_char c :: nat) < 32 then None
      else
        (case scanstring cs of
           None \<Rightarrow> None
         | Some (t, r') \<Rightarrow> Some (c # t, r')))"

text \<open>Numbers. \<open>int_of_digits\<close> reads a run of decimal digits.\<close>

definition int_of_digits :: "string \<Rightarrow> int" where
  "int_of_digits ds = foldl (\<lambda>a d. a * 10 + (int (of_char d) - 48)) 0 ds"

text \<open>The integer part \<^verbatim>\<open>0|[1-9][0-9]*\<close>: its digits and the rest.\<close>

definition scan_intpart :: "string \<Rightarrow> (string \<times> string) option" where
  "scan_intpart s =
     (case s of
        [] \<Rightarrow> None
      | c # cs \<Rightarrow>
          if c = CHR ''0'' then Some ([c], cs)
          else if is_digit c then Some (c # takeWhile is_digit cs, dropWhile is_digit cs)
          else None)"

text \<open>The optional groups \<^verbatim>\<open>(\.[0-9]+)?\<close> and \<^verbatim>\<open>([eE][-+]?[0-9]+)?\<close>: the text matched (empty when
  the group does not take part) and the rest.\<close>

definition scan_frac :: "string \<Rightarrow> string \<times> string" where
  "scan_frac s =
     (case s of
        c # d # r \<Rightarrow>
          if c = CHR ''.'' \<and> is_digit d
          then (c # d # takeWhile is_digit r, dropWhile is_digit r)
          else ([], s)
      | _ \<Rightarrow> ([], s))"

definition scan_exp :: "string \<Rightarrow> string \<times> string" where
  "scan_exp s =
     (case s of
        [] \<Rightarrow> ([], s)
      | c # r \<Rightarrow>
          if c = CHR ''e'' \<or> c = CHR ''E'' then
            (case r of
               [] \<Rightarrow> ([], s)
             | d # r' \<Rightarrow>
                 if is_digit d then (c # d # takeWhile is_digit r', dropWhile is_digit r')
                 else if d = CHR ''+'' \<or> d = CHR ''-'' then
                   (case r' of
                      [] \<Rightarrow> ([], s)
                    | d' # r'' \<Rightarrow>
                        if is_digit d'
                        then (c # d # d' # takeWhile is_digit r'', dropWhile is_digit r'')
                        else ([], s))
                 else ([], s))
          else ([], s))"

definition scan_number :: "string \<Rightarrow> (pyval \<times> string) option" where
  "scan_number s =
     (let (sign, s1) = (case s of
                          [] \<Rightarrow> ([], s)
                        | c # cs \<Rightarrow> if c = CHR ''-'' then ([c], cs) else ([], s))
      in case scan_intpart s1 of
           None \<Rightarrow> None
         | Some (ds, s2) \<Rightarrow>
             (let (frac, s3) = scan_frac s2; (ex, s4) = scan_exp s3
              in if frac = [] \<and> ex = []
                 then Some (PInt (if sign = [] then int_of_digits ds else - int_of_digits ds), s4)
                 else Some (PFloat (sign @ ds @ frac @ ex), s4)))"

text \<open>\<open>literal l s\<close>: \<open>s\<close> without the prefix \<open>l\<close>, when it has it.\<close>

definition literal :: "string \<Rightarrow> string \<Rightarrow> string option" where
  "literal l s = (if take (length l) s = l then Some (drop (length l) s) else None)"

text \<open>
  A value, the members of an object (after the opening quote of a key, with the pairs
  read so far) and the elements of an array (at an element, with the elements read so
  far). The first argument bounds the depth of the calls. A bound above twice the length
  of the text is never reached: the result is then the same for every larger bound
  (lemma \<open>json_loads_fuel\<close> below), so \<open>None\<close> is always an error of the text.
\<close>

fun json_value :: "nat \<Rightarrow> string \<Rightarrow> (pyval \<times> string) option"
  and json_members :: "nat \<Rightarrow> string \<Rightarrow> (string \<times> pyval) list \<Rightarrow> (pyval \<times> string) option"
  and json_elements :: "nat \<Rightarrow> string \<Rightarrow> pyval list \<Rightarrow> (pyval \<times> string) option" where
  "json_value 0 s = None"
| "json_value (Suc n) [] = None"
| "json_value (Suc n) (c # cs) =
     (if c = CHR 0x22 then
        (case scanstring cs of None \<Rightarrow> None | Some (t, r) \<Rightarrow> Some (PStr t, r))
      else if c = CHR ''{'' then
        (case skip_ws cs of
           [] \<Rightarrow> None
         | d # r \<Rightarrow>
             if d = CHR ''}'' then Some (PDict [], r)
             else if d = CHR 0x22 then json_members n r []
             else None)
      else if c = CHR ''['' then
        (case skip_ws cs of
           [] \<Rightarrow> None
         | d # r \<Rightarrow>
             if d = CHR '']'' then Some (PList [], r)
             else json_elements n (d # r) [])
      else if c = CHR ''n'' then
        (case literal ''ull'' cs of None \<Rightarrow> None | Some r \<Rightarrow> Some (PNone, r))
      else if c = CHR ''t'' then
        (case literal ''rue'' cs of None \<Rightarrow> None | Some r \<Rightarrow> Some (PBool True, r))
      else if c = CHR ''f'' then
        (case literal ''alse'' cs of None \<Rightarrow> None | Some r \<Rightarrow> Some (PBool False, r))
      else
        (case scan_number (c # cs) of
           Some x \<Rightarrow> Some x
         | None \<Rightarrow>
             (case literal ''NaN'' (c # cs) of
                Some r \<Rightarrow> Some (PFloat ''NaN'', r)
              | None \<Rightarrow>
                  (case literal ''Infinity'' (c # cs) of
                     Some r \<Rightarrow> Some (PFloat ''Infinity'', r)
                   | None \<Rightarrow>
                       (case literal ''-Infinity'' (c # cs) of
                          Some r \<Rightarrow> Some (PFloat ''-Infinity'', r)
                        | None \<Rightarrow> None)))))"
| "json_members 0 s acc = None"
| "json_members (Suc n) s acc =
     (case scanstring s of
        None \<Rightarrow> None
      | Some (key, r1) \<Rightarrow>
          (case skip_ws r1 of
             [] \<Rightarrow> None
           | c # r2 \<Rightarrow>
               if c \<noteq> CHR '':'' then None
               else
                 (case json_value n (skip_ws r2) of
                    None \<Rightarrow> None
                  | Some (v, r3) \<Rightarrow>
                      (case skip_ws r3 of
                         [] \<Rightarrow> None
                       | d # r4 \<Rightarrow>
                           if d = CHR ''}'' then Some (PDict (AList.update key v acc), r4)
                           else if d = CHR '','' then
                             (case skip_ws r4 of
                                [] \<Rightarrow> None
                              | q # r5 \<Rightarrow>
                                  if q = CHR 0x22
                                  then json_members n r5 (AList.update key v acc)
                                  else None)
                           else None))))"
| "json_elements 0 s acc = None"
| "json_elements (Suc n) s acc =
     (case json_value n s of
        None \<Rightarrow> None
      | Some (v, r1) \<Rightarrow>
          (case skip_ws r1 of
             [] \<Rightarrow> None
           | d # r2 \<Rightarrow>
               if d = CHR '']'' then Some (PList (acc @ [v]), r2)
               else if d = CHR '','' then json_elements n (skip_ws r2) (acc @ [v])
               else None))"

text \<open>\<^verbatim>\<open>json.loads(s)\<close>: one value between optional whitespace, and nothing else.\<close>

definition json_loads :: "string \<Rightarrow> pyval option" where
  "json_loads s =
     (case json_value (Suc (2 * length s)) (skip_ws s) of
        None \<Rightarrow> None
      | Some (v, r) \<Rightarrow> if skip_ws r = [] then Some v else None)"

subsection \<open>\<^verbatim>\<open>re.search\<close> with the pattern of the parser\<close>

text \<open>
  The pattern is \<^verbatim>\<open>```(?:json)?\s*(\{.*?\})\s*```\<close> with \<^verbatim>\<open>re.DOTALL\<close>. \<^verbatim>\<open>re.search\<close> tries the
  start positions from the left and keeps the first at which the pattern matches, with
  the alternatives of a backtracking matcher in their order of preference.

  \<open>closes s\<close> is \<^verbatim>\<open>\s*```\<close> at the head of \<open>s\<close>: a backquote is no whitespace, so the greedy
  \<^verbatim>\<open>\s*\<close> can only stop where the whitespace ends.
\<close>

definition closes :: "string \<Rightarrow> bool" where
  "closes s \<longleftrightarrow> take 3 (dropWhile isspace s) = ''```''"

text \<open>
  \<open>lazy_body acc s\<close> is \<^verbatim>\<open>.*?\}\s*```\<close> at the head of \<open>s\<close>, with the characters \<open>acc\<close> already
  taken by \<^verbatim>\<open>.*?\<close> (in reverse): the lazy quantifier takes as few characters as a match of
  the rest allows, and the dot takes any character. The result is the text of the group.
\<close>

fun lazy_body :: "string \<Rightarrow> string \<Rightarrow> string option" where
  "lazy_body acc [] = None"
| "lazy_body acc (c # cs) =
     (if c = CHR ''}'' \<and> closes cs then Some (CHR ''{'' # rev acc @ [c])
      else lazy_body (c # acc) cs)"

text \<open>\<open>after_fence s\<close> is \<^verbatim>\<open>\s*(\{.*?\})\s*```\<close> at the head of \<open>s\<close>; a brace is no whitespace.\<close>

definition after_fence :: "string \<Rightarrow> string option" where
  "after_fence s =
     (case dropWhile isspace s of
        [] \<Rightarrow> None
      | c # cs \<Rightarrow> if c = CHR ''{'' then lazy_body [] cs else None)"

text \<open>The whole pattern at the head of \<open>s\<close>: the optional \<^verbatim>\<open>json\<close> is taken first when it is
  there, and left out if the rest does not match then.\<close>

definition match_here :: "string \<Rightarrow> string option" where
  "match_here s =
     (if take 3 s = ''```'' then
        (let s1 = drop 3 s
         in if take 4 s1 = ''json'' then
              (case after_fence (drop 4 s1) of Some g \<Rightarrow> Some g | None \<Rightarrow> after_fence s1)
            else after_fence s1)
      else None)"

text \<open>\<^verbatim>\<open>re.search(json_pattern, s, re.DOTALL)\<close> followed by \<^verbatim>\<open>match.group(1)\<close>.\<close>

fun re_search :: "string \<Rightarrow> string option" where
  "re_search [] = None"
| "re_search (c # cs) =
     (case match_here (c # cs) of Some g \<Rightarrow> Some g | None \<Rightarrow> re_search cs)"


section \<open>Agent (core/agent.py)\<close>

subsection \<open>\<^verbatim>\<open>_parse_tool_call\<close>\<close>

text \<open>
  The test both stages apply to a decoded value (lines 120 to 125 and 136 to 141): a
  dictionary with the keys \<^verbatim>\<open>"tool"\<close> and \<^verbatim>\<open>"args"\<close> is returned as it is.
\<close>

definition tool_request :: "pyval \<Rightarrow> (string \<times> pyval) list option" where
  "tool_request v =
     (case v of
        PDict kvs \<Rightarrow>
          if map_of kvs ''tool'' \<noteq> None \<and> map_of kvs ''args'' \<noteq> None then Some kvs else None
      | _ \<Rightarrow> None)"

text \<open>The first \<^verbatim>\<open>try\<close> block: the stripped text as one JSON document.\<close>

definition parse_plain :: "string \<Rightarrow> (string \<times> pyval) list option" where
  "parse_plain llm_output =
     (case json_loads (strip llm_output) of
        None \<Rightarrow> None
      | Some structured_response \<Rightarrow> tool_request structured_response)"

text \<open>Lines 129 to 143: the group of the first match of the pattern, decoded.\<close>

definition parse_fenced :: "string \<Rightarrow> (string \<times> pyval) list option" where
  "parse_fenced llm_output =
     (case re_search llm_output of
        None \<Rightarrow> None
      | Some json_content \<Rightarrow>
          (case json_loads json_content of
             None \<Rightarrow> None
           | Some structured_response \<Rightarrow> tool_request structured_response))"

text \<open>\<open>None\<close> is the \<^verbatim>\<open>None\<close> of line 145: not a tool call.\<close>

definition parse_tool_call :: "string \<Rightarrow> (string \<times> pyval) list option" where
  "parse_tool_call llm_output =
     (case parse_plain llm_output of
        Some structured_response \<Rightarrow> Some structured_response
      | None \<Rightarrow> parse_fenced llm_output)"

subsection \<open>The agent and its memory\<close>

text \<open>
  An entry of \<^verbatim>\<open>temporary_memory\<close> is a dictionary with a role and a content; the content is
  a text, or for the role \<^verbatim>\<open>"tool"\<close> the dictionary with the keys \<^verbatim>\<open>name\<close>, \<^verbatim>\<open>args\<close> and \<^verbatim>\<open>output\<close>.
\<close>

datatype payload = Text string | ToolRecord pyval pyval pyval

type_synonym memory = "(string \<times> payload) list"

text \<open>
  The attributes of an agent. \<open>model\<close> is \<^verbatim>\<open>self.model.generate\<close>: it returns a text or raises,
  and changes the world. \<open>stop_conditions\<close> is the \<^verbatim>\<open>should_stop\<close> method of the stop
  condition (the module \<^verbatim>\<open>peargent.core.stopping\<close> is not part of the sources, so it is a
  parameter). Two more parameters stand for what the prompts are made from and the
  sources do not hold: \<open>tools_prompt\<close>, the text \<^verbatim>\<open>_render_tools_prompt\<close> gets from the template
  \<^verbatim>\<open>tools_prompt.j2\<close>, and \<open>py_str\<close>, the built-in \<^verbatim>\<open>str\<close> on values.
\<close>

record 'w Agent =
  name :: string
  model :: "string \<Rightarrow> 'w \<Rightarrow> (error + string) \<times> 'w"
  persona :: string
  description :: string
  tools :: "(string \<times> 'w Tool) list"
  stop_conditions :: "int \<Rightarrow> memory \<Rightarrow> bool"
  tools_prompt :: string
  py_str :: "pyval \<Rightarrow> string"

text \<open>
  The constructor: the registry keeps the last tool of a repeated name, and \<^verbatim>\<open>stop\<close> defaults
  to \<^verbatim>\<open>limit_steps(5)\<close>, the argument \<open>limit_steps_5\<close> here.
\<close>

definition Agent_init ::
  "string \<Rightarrow> (string \<Rightarrow> 'w \<Rightarrow> (error + string) \<times> 'w) \<Rightarrow> string \<Rightarrow> string \<Rightarrow> 'w Tool list
     \<Rightarrow> (int \<Rightarrow> memory \<Rightarrow> bool) option \<Rightarrow> (int \<Rightarrow> memory \<Rightarrow> bool) \<Rightarrow> string
     \<Rightarrow> (pyval \<Rightarrow> string) \<Rightarrow> 'w Agent" where
  "Agent_init nm mdl pers descr tls stop limit_steps_5 tp str =
     \<lparr>name = nm, model = mdl, persona = pers, description = descr,
      tools = foldl (\<lambda>acc t. AList.update (Tool.name t) t acc) [] tls,
      stop_conditions = (case stop of None \<Rightarrow> limit_steps_5 | Some c \<Rightarrow> c),
      tools_prompt = tp, py_str = str\<rparr>"

text \<open>\<^verbatim>\<open>str.capitalize\<close> on the three roles the agent writes.\<close>

definition capitalize_role :: "string \<Rightarrow> string" where
  "capitalize_role r =
     (if r = ''user'' then ''User'' else if r = ''assistant'' then ''Assistant''
      else if r = ''tool'' then ''Tool'' else r)"

fun join :: "string \<Rightarrow> string list \<Rightarrow> string" where
  "join sep [] = []"
| "join sep [x] = x"
| "join sep (x # y # ys) = x @ sep @ join sep (y # ys)"

text \<open>\<^verbatim>\<open>_build_initial_prompt\<close>, called when the memory holds texts only.\<close>

fun initial_line :: "(pyval \<Rightarrow> string) \<Rightarrow> string \<times> payload \<Rightarrow> string" where
  "initial_line str (r, Text c) = capitalize_role r @ '': '' @ c"
| "initial_line str (r, ToolRecord n a out) =
     capitalize_role r @ '': '' @
       str (PDict [(''name'', n), (''args'', a), (''output'', out)])"

definition build_initial_prompt :: "'w Agent \<Rightarrow> memory \<Rightarrow> string" where
  "build_initial_prompt A mem =
     persona A @ [CHR 0x0A, CHR 0x0A] @ tools_prompt A @ [CHR 0x0A, CHR 0x0A]
       @ join [CHR 0x0A] (map (initial_line (py_str A)) mem)
       @ [CHR 0x0A, CHR 0x0A] @ ''Assistant:''"

text \<open>Lines 91 to 105: the prompt after a tool call.\<close>

fun history_line :: "(pyval \<Rightarrow> string) \<Rightarrow> string \<times> payload \<Rightarrow> string" where
  "history_line str (r, Text c) = capitalize_role r @ '': '' @ c"
| "history_line str (r, ToolRecord n a out) =
     ''Tool '' @ [CHR 0x27] @ str n @ [CHR 0x27] @ '' called with args:'' @ [CHR 0x0A] @ str a
       @ [CHR 0x0A] @ ''Output:'' @ [CHR 0x0A] @ str out"

definition followup_prompt :: "'w Agent \<Rightarrow> memory \<Rightarrow> string" where
  "followup_prompt A mem =
     persona A @ [CHR 0x0A, CHR 0x0A] @ tools_prompt A @ [CHR 0x0A, CHR 0x0A]
       @ ''Conversation History:'' @ [CHR 0x0A]
       @ join [CHR 0x0A] (map (history_line (py_str A)) mem) @ [CHR 0x0A, CHR 0x0A]
       @ ''Assistant: Based on the most recent tool output shown above, either:'' @ [CHR 0x0A]
       @ ''1. Use another tool.'' @ [CHR 0x0A]
       @ ''2. Or provide the best final answer to the user's request in natural language.''
       @ [CHR 0x0A]
       @ ''Remember to reference the tool result if relevant.''"

text \<open>\<^verbatim>\<open>str\<close> on an \<^verbatim>\<open>int\<close>, for the text of line 88.\<close>

fun digits :: "nat \<Rightarrow> string" where
  "digits n = (if n < 10 then [char_of (48 + n)] else digits (n div 10) @ [char_of (48 + n mod 10)])"

declare digits.simps [simp del]

definition str_int :: "int \<Rightarrow> string" where
  "str_int i = (if i < 0 then CHR ''-'' # digits (nat (- i)) else digits (nat i))"

definition stopped_message :: "int \<Rightarrow> string" where
  "stopped_message step = ''Stopped after '' @ str_int step @ '' steps due to stop condition.''"

text \<open>
  Lines 75 and 78: the registry is a dictionary with string keys. A list or a dictionary
  as the name is unhashable, and any other value that is no string equals no key.
\<close>

definition find_tool :: "'w Agent \<Rightarrow> pyval \<Rightarrow> error + 'w Tool" where
  "find_tool A tool_name =
     (case tool_name of
        PStr n \<Rightarrow> (case map_of (tools A) n of None \<Rightarrow> Inl (UnknownTool tool_name) | Some t \<Rightarrow> Inr t)
      | PList xs \<Rightarrow> Inl Unhashable
      | PDict kvs \<Rightarrow> Inl Unhashable
      | _ \<Rightarrow> Inl (UnknownTool tool_name))"

text \<open>
  What a run of the agent leaves: the value it returns or the exception, the memory, the
  prompts the model was called with, the invocations of wrapped callables (tool name and
  keyword arguments), both in order, and the world.
\<close>

record 'w agent_outcome =
  answer :: "error + string"
  temporary_memory :: memory
  prompts :: "string list"
  tool_invocations :: "(string \<times> kwargs) list"
  world_after :: 'w

text \<open>
  The \<^verbatim>\<open>while True\<close> loop of \<^verbatim>\<open>Agent.run\<close>, on the loop variables \<^verbatim>\<open>step\<close> and \<^verbatim>\<open>prompt\<close>, the memory,
  the two logs and the world. The loop has no bound, so the first argument counts the
  iterations allowed: \<open>None\<close> says that the run has not returned within them. The two
  subscripts of lines 72 and 73 cannot fail, since the parser returns dictionaries with
  both keys only; their \<^verbatim>\<open>KeyError\<close> is written out all the same. (The \<^verbatim>\<open>print\<close> of line 110
  is left out.)
\<close>

fun agent_loop ::
  "nat \<Rightarrow> 'w Agent \<Rightarrow> int \<Rightarrow> string \<Rightarrow> memory \<Rightarrow> string list \<Rightarrow> (string \<times> kwargs) list \<Rightarrow> 'w
     \<Rightarrow> 'w agent_outcome option" where
  "agent_loop 0 A step0 prompt mem ps invs w = None"
| "agent_loop (Suc fuel) A step0 prompt mem ps invs w =
     (let step = step0 + 1 in
      case model A prompt w of
        (Inl e, w1) \<Rightarrow>
          Some \<lparr>answer = Inl e, temporary_memory = mem, prompts = ps @ [prompt],
                tool_invocations = invs, world_after = w1\<rparr>
      | (Inr response, w1) \<Rightarrow>
          (let mem1 = mem @ [(''assistant'', Text response)] in
           case parse_tool_call response of
             None \<Rightarrow>
               Some \<lparr>answer = Inr response, temporary_memory = mem1, prompts = ps @ [prompt],
                     tool_invocations = invs, world_after = w1\<rparr>
           | Some tool_call \<Rightarrow>
               (case (map_of tool_call ''tool'', map_of tool_call ''args'') of
                  (Some tool_name, Some args) \<Rightarrow>
                    (case find_tool A tool_name of
                       Inl e \<Rightarrow>
                         Some \<lparr>answer = Inl e, temporary_memory = mem1, prompts = ps @ [prompt],
                               tool_invocations = invs, world_after = w1\<rparr>
                     | Inr tool \<Rightarrow>
                         (let r = Tool_run tool args w1;
                              invs1 = invs @ map (Pair (Tool.name tool)) (invocations r)
                          in case result r of
                               Inl e \<Rightarrow>
                                 Some \<lparr>answer = Inl e, temporary_memory = mem1,
                                       prompts = ps @ [prompt], tool_invocations = invs1,
                                       world_after = world r\<rparr>
                             | Inr tool_output \<Rightarrow>
                                 (let mem2 = mem1 @ [(''tool'',
                                        ToolRecord tool_name args tool_output)]
                                  in if stop_conditions A (step - 1) mem2 then
                                       Some \<lparr>answer = Inr (stopped_message step),
                                             temporary_memory = mem2, prompts = ps @ [prompt],
                                             tool_invocations = invs1, world_after = world r\<rparr>
                                     else agent_loop fuel A step (followup_prompt A mem2) mem2
                                            (ps @ [prompt]) invs1 (world r))))
                | (None, _) \<Rightarrow>
                    Some \<lparr>answer = Inl (KeyError ''tool''), temporary_memory = mem1,
                          prompts = ps @ [prompt], tool_invocations = invs, world_after = w1\<rparr>
                | (Some tool_name, None) \<Rightarrow>
                    Some \<lparr>answer = Inl (KeyError ''args''), temporary_memory = mem1,
                          prompts = ps @ [prompt], tool_invocations = invs, world_after = w1\<rparr>)))"

text \<open>\<^verbatim>\<open>Agent.run\<close>: a fresh memory with the user's message, the first prompt, the loop.\<close>

definition Agent_run :: "nat \<Rightarrow> 'w Agent \<Rightarrow> string \<Rightarrow> 'w \<Rightarrow> 'w agent_outcome option" where
  "Agent_run fuel A input_data w =
     (let mem = [(''user'', Text input_data)]
      in agent_loop fuel A 0 (build_initial_prompt A mem) mem [] [] w)"

section \<open>Shared state (core/state.py)\<close>

record message =
  role :: string
  content :: string
  agent :: "string option"

record State =
  kv :: "(string \<times> pyval) list"
  history :: "message list"

text \<open>\<^verbatim>\<open>State(data)\<close>: \<^verbatim>\<open>data or {}\<close> and an empty history.\<close>

definition State_init :: "(string \<times> pyval) list option \<Rightarrow> State" where
  "State_init data = \<lparr>kv = (case data of None \<Rightarrow> [] | Some d \<Rightarrow> d), history = []\<rparr>"

definition add_message :: "State \<Rightarrow> string \<Rightarrow> string \<Rightarrow> string option \<Rightarrow> State" where
  "add_message s r c a = s\<lparr>history := history s @ [\<lparr>role = r, content = c, agent = a\<rparr>]\<rparr>"

definition State_get :: "State \<Rightarrow> string \<Rightarrow> pyval \<Rightarrow> pyval" where
  "State_get s key dflt = (case map_of (kv s) key of None \<Rightarrow> dflt | Some v \<Rightarrow> v)"

definition State_set :: "State \<Rightarrow> string \<Rightarrow> pyval \<Rightarrow> State" where
  "State_set s key v = s\<lparr>kv := AList.update key v (kv s)\<rparr>"

section \<open>Router (core/router.py)\<close>

record RouterResult =
  next_agent_name :: "string option"

record last_result =
  agent :: string
  "output" :: string

text \<open>
  \<^verbatim>\<open>RouterFn\<close>: a router is called with the state object, the call count and the last result.
  It returns a \<^verbatim>\<open>RouterResult\<close> (or \<^verbatim>\<open>None\<close>, which the pool accepts), or raises; the state it
  leaves is returned with its answer, since it holds the same mutable object as the pool.
\<close>

type_synonym RouterFn =
  "State \<Rightarrow> int \<Rightarrow> last_result option \<Rightarrow> (error + RouterResult option) \<times> State"

text \<open>
  \<^verbatim>\<open>round_robin_router(agent_names)\<close> returns the closure \<^verbatim>\<open>_router\<close>; here the list is the first
  argument. \<^verbatim>\<open>call_count\<close> is a Python \<^verbatim>\<open>int\<close>. \<^verbatim>\<open>%\<close> with a positive right operand gives a
  result in \<open>0 ..< n\<close>, as \<open>mod\<close> on \<open>int\<close> does; with an empty list (reached only when
  \<^verbatim>\<open>call_count\<close> is negative) it raises. The state is not touched.
\<close>

definition round_robin_router :: "string list \<Rightarrow> RouterFn" where
  "round_robin_router agent_names state call_count last_result =
     (if call_count \<ge> int (length agent_names)
      then (Inr (Some \<lparr>next_agent_name = None\<rparr>), state)
      else if length agent_names = 0 then (Inl ZeroDivisionError, state)
      else (Inr (Some \<lparr>next_agent_name =
                        Some (agent_names ! nat (call_count mod int (length agent_names)))\<rparr>),
            state))"

section \<open>Pool (core/pool.py)\<close>

text \<open>
  The pool uses two attributes of an agent: \<^verbatim>\<open>name\<close> and \<^verbatim>\<open>run\<close>. A run of an agent on an input,
  in a world, returns a string or raises, and leaves a new world; \<open>None\<close> is a run that
  never returns (the agent loop has no bound of its own). \<^verbatim>\<open>Agent.run\<close> returns a \<^verbatim>\<open>str\<close>, on
  which \<^verbatim>\<open>str(output)\<close> is the identity.
\<close>

record 'w member =
  name :: string
  run :: "string \<Rightarrow> 'w \<Rightarrow> ((error + string) \<times> 'w) option"

record 'w Pool =
  agents_dict :: "(string \<times> 'w member) list"
  agents_names :: "string list"
  router :: RouterFn
  max_iter :: int
  state :: State

text \<open>
  The constructor. The dictionary comprehension keeps the first position and the last
  value of a repeated name. (\<^verbatim>\<open>default_model\<close> is stored and never read; it is left out.)
  The router used when none is given is \<^verbatim>\<open>lambda state, call_count, last: RouterResult(None)\<close>;
  \<^verbatim>\<open>run\<close> calls the router with the keyword \<^verbatim>\<open>last_result\<close>, which this function does not have,
  so a call of it raises \<^verbatim>\<open>TypeError\<close>.
\<close>

definition default_router :: RouterFn where
  "default_router s call_count last_result =
     (Inl (Fault ''TypeError'' ''<lambda>() got an unexpected keyword argument last_result''), s)"

definition Pool_init ::
  "'w member list \<Rightarrow> RouterFn option \<Rightarrow> int \<Rightarrow> State option \<Rightarrow> 'w Pool" where
  "Pool_init agents rtr mi default_state =
     (let d = foldl (\<lambda>acc a. AList.update (member.name a) a acc) [] agents
      in \<lparr>agents_dict = d,
          agents_names = map fst d,
          router = (case rtr of None \<Rightarrow> default_router | Some r \<Rightarrow> r),
          max_iter = mi,
          state = (case default_state of None \<Rightarrow> State_init None | Some s \<Rightarrow> s)\<rparr>)"

text \<open>
  What a run of the pool leaves: its return value or the exception, the state object, the
  runs of agents it started (agent name and input, in order) and the world.
\<close>

record 'w pool_outcome =
  returned :: "error + string"
  final_state :: State
  agent_runs :: "(string \<times> string) list"
  final_world :: 'w

text \<open>Line 55: the content of the last assistant message, or the empty string.\<close>

definition final_content :: "State \<Rightarrow> string" where
  "final_content s =
     (case filter (\<lambda>m. role m = ''assistant'') (rev (history s)) of
        [] \<Rightarrow> []
      | m # ms \<Rightarrow> content m)"

text \<open>
  The \<^verbatim>\<open>while call_count < self.max_iter\<close> loop, on the loop variables, the state object, the
  log of agent runs and the world. Each iteration either leaves the loop or increments
  \<^verbatim>\<open>call_count\<close>.
\<close>

function pool_loop ::
  "'w Pool \<Rightarrow> int \<Rightarrow> last_result option \<Rightarrow> string \<Rightarrow> State \<Rightarrow> (string \<times> string) list \<Rightarrow> 'w
     \<Rightarrow> 'w pool_outcome option" where
  "pool_loop pool call_count last_result current_input s runs w =
     (if call_count < max_iter pool then
        (case router pool s call_count last_result of
           (Inl e, s1) \<Rightarrow>
             Some \<lparr>returned = Inl e, final_state = s1, agent_runs = runs, final_world = w\<rparr>
         | (Inr None, s1) \<Rightarrow>
             Some \<lparr>returned = Inr (final_content s1), final_state = s1,
                   agent_runs = runs, final_world = w\<rparr>
         | (Inr (Some route), s1) \<Rightarrow>
             (case next_agent_name route of
                None \<Rightarrow>
                  Some \<lparr>returned = Inr (final_content s1), final_state = s1,
                        agent_runs = runs, final_world = w\<rparr>
              | Some n \<Rightarrow>
                  (case map_of (agents_dict pool) n of
                     None \<Rightarrow>
                       Some \<lparr>returned = Inl (UnknownAgent n), final_state = s1,
                             agent_runs = runs, final_world = w\<rparr>
                   | Some a \<Rightarrow>
                       (case run a current_input w of
                          None \<Rightarrow> None
                        | Some (Inl e, w1) \<Rightarrow>
                            Some \<lparr>returned = Inl e, final_state = s1,
                                  agent_runs = runs @ [(member.name a, current_input)],
                                  final_world = w1\<rparr>
                        | Some (Inr out, w1) \<Rightarrow>
                            pool_loop pool (call_count + 1)
                              (Some \<lparr>agent = member.name a, output = out\<rparr>) out
                              (add_message s1 ''assistant'' out (Some (member.name a)))
                              (runs @ [(member.name a, current_input)]) w1))))
      else
        Some \<lparr>returned = Inr (final_content s), final_state = s,
              agent_runs = runs, final_world = w\<rparr>)"
  by pat_completeness auto
termination
  by (relation "measure (\<lambda>(pool, call_count, last_result, current_input, s, runs, w).
                  nat (max_iter pool - call_count))") auto

declare pool_loop.simps [simp del]

definition Pool_run :: "'w Pool \<Rightarrow> string \<Rightarrow> 'w \<Rightarrow> 'w pool_outcome option" where
  "Pool_run pool user_input w =
     pool_loop pool 0 None user_input
       (add_message (state pool) ''user'' user_input None) [] w"

section \<open>Values taken from the examples and tests of the repository\<close>



definition fact_generator_tool :: "kwargs \<Rightarrow> 'w \<Rightarrow> (error + pyval) \<times> 'w" where
  "fact_generator_tool kw w =
     (if set (map fst kw) = {''text''}
      then (Inr (PStr ''Humans finally reached Mars on 27th Feb 2300.''), w)
      else (Inl (Fault ''TypeError'' ''fact_generator_tool() got unexpected arguments''), w))"

definition fact_generator :: "'w Tool" where
  "fact_generator =
     \<lparr>Tool.name = ''fact_generator'',
      Tool.description = ''Generates facts about various topics   '',
      input_parameters = [(''text'', TStr)], call_function = fact_generator_tool\<rparr>"

text \<open>
  A model that answers from a script: the world is the list of the responses still to
  come. The agent \<^verbatim>\<open>search\<close> of examples/basic\_example.py with this model, for a given stop
  condition.
\<close>

definition scripted :: "string \<Rightarrow> string list \<Rightarrow> (error + string) \<times> string list" where
  "scripted prompt w =
     (case w of
        [] \<Rightarrow> (Inl (Fault ''RuntimeError'' ''no response left''), [])
      | r # rs \<Rightarrow> (Inr r, rs))"

definition search :: "(int \<Rightarrow> memory \<Rightarrow> bool) \<Rightarrow> string list Agent" where
  "search stop =
     Agent_init ''search'' scripted
       ''Find fresh facts using the fact_generator tool.'' ''Performs fact generation.''
       [fact_generator] (Some stop) (\<lambda>step mem. 5 \<le> step) [] (\<lambda>v. [])"

text \<open>
  Responses of a model: a request for the registered tool, a request for a tool the agent
  does not have, the parallel request that examples/parallel\_tools\_direct\_test.py builds
  with \<^verbatim>\<open>json.dumps\<close>, a request inside a fenced block, and a text with two fenced blocks.
\<close>

definition single_json :: string where
  \<open>single_json = ''{"tool": "fact_generator", "args": {"text": "Mars"}}''\<close>

definition unknown_json :: string where
  \<open>unknown_json = ''{"tool": "calculator", "args": {"expression": "2+2"}}''\<close>

definition parallel_json :: string where
  \<open>parallel_json =
     ''{"tools": [{"tool": "tool_a", "args": {"x": "test1"}}, {"tool": "tool_b", "args": {"y": "test2"}}, {"tool": "tool_c", "args": {"z": "test3"}}]}''\<close>

definition fenced_reply :: string where
  \<open>fenced_reply =
     ''I will look that up. ```json {"tool": "fact_generator", "args": {"text": "Mars"}} ``` One moment.''\<close>

definition two_blocks :: string where
  \<open>two_blocks =
     ''First ```{"note": 1}``` then ```{"tool": "fact_generator", "args": {}}```''\<close>

text \<open>
  The pool of examples/verify\_atlas.py: two agents and \<^verbatim>\<open>max_iter=3\<close>, with a given router.
  The agents stand for any agents whose runs return: each returns its name and its input.
  \<open>always n\<close> is a router that names \<open>n\<close> at every call and never stops.
\<close>

definition echo :: "string \<Rightarrow> unit member" where
  "echo nm = \<lparr>member.name = nm, run = (\<lambda>inp w. Some (Inr (nm @ '': '' @ inp), w))\<rparr>"

definition always :: "string \<Rightarrow> RouterFn" where
  "always nm = (\<lambda>s c l. (Inr (Some \<lparr>next_agent_name = Some nm\<rparr>), s))"

definition agent_pool :: "RouterFn \<Rightarrow> unit Pool" where
  "agent_pool r = Pool_init [echo ''MathAgent'', echo ''WriterAgent''] (Some r) 3 None"

section \<open>The lexical structure of JSON text\<close>

text \<open>
  The notions below serve the proofs about the two stages of the parser; they are not
  part of the program. A JSON text is a sequence of string literals and of characters
  outside them. \<open>lex\<close> follows a text with three states (outside a literal, inside one,
  after a backslash inside one) and fails on a character that no JSON text has in that
  state: outside a literal there are only whitespace, digits, the punctuation and the
  letters of the constants, so neither a backslash, nor a backquote, nor the letter
  \<^verbatim>\<open>o\<close>. \<open>toks u ts\<close> says that \<open>u\<close> is made of such characters and of literals, whose
  decoded strings are \<open>ts\<close>.
\<close>

datatype lexstate = Out | In | Esc

definition out_char :: "char \<Rightarrow> bool" where
  "out_char c \<longleftrightarrow> isspace c \<or> is_digit c \<or> c \<in> set ''{}[]:,-+.eEtrufalsnNIiy''"

fun lex_step :: "lexstate \<Rightarrow> char \<Rightarrow> lexstate option" where
  "lex_step Out c = (if c = CHR 0x22 then Some In else if out_char c then Some Out else None)"
| "lex_step In c = (if c = CHR 0x22 then Some Out else if c = CHR 0x5C then Some Esc else Some In)"
| "lex_step Esc c = (if unescape c \<noteq> None \<or> c = CHR ''u'' then Some In else None)"

fun lex :: "lexstate \<Rightarrow> string \<Rightarrow> lexstate option" where
  "lex st [] = Some st"
| "lex st (c # cs) = (case lex_step st c of None \<Rightarrow> None | Some st' \<Rightarrow> lex st' cs)"

definition plain :: "char \<Rightarrow> bool" where
  "plain c \<longleftrightarrow> out_char c \<and> c \<noteq> CHR 0x22"

inductive toks :: "string \<Rightarrow> string list \<Rightarrow> bool" where
  toks_Nil: "toks [] []"
| toks_plain: "plain c \<Longrightarrow> toks u ts \<Longrightarrow> toks (c # u) ts"
| toks_string: "scanstring b = Some (t, []) \<Longrightarrow> toks u ts \<Longrightarrow> toks (CHR 0x22 # b @ u) (t # ts)"

fun dict_keys :: "pyval \<Rightarrow> string set" where
  "dict_keys (PDict kvs) = fst ` set kvs"
| "dict_keys v = {}"

definition numchar :: "char \<Rightarrow> bool" where
  "numchar c \<longleftrightarrow> is_digit c \<or> c \<in> set ''-+.eE''"

section \<open>The bound of the JSON decoder\<close>

text \<open>
  Every successful call of the decoder leaves a suffix no longer than its input. With
  that, a bound above twice the length of the text gives the same result as any larger
  bound: the bound of \<open>json_loads\<close> only makes the recursion structural.
\<close>

lemma length_skip_ws: "length (skip_ws s) \<le> length s"
  by (simp add: skip_ws_def length_dropWhile_le)

lemma skip_ws_Cons: "skip_ws s = d # r \<Longrightarrow> length r < length s"
  using length_skip_ws [of s] by simp

lemma scanstring_consumes: "scanstring s = Some (t, r) \<Longrightarrow> length r < length s"
proof (induction "length s" arbitrary: s t r rule: less_induct)
  case less
  from less.prems obtain c cs where s: "s = c # cs" by (cases s) auto
  have IH: "length r' < length s'" if "scanstring s' = Some (t', r')" "length s' < length s"
    for s' t' r'
    using less.hyps [OF that(2) that(1)] .
  show ?case
  proof (cases "c = CHR 0x22")
    case True
    with less.prems s show ?thesis by simp
  next
    case nq: False
    show ?thesis
    proof (cases "c = CHR 0x5C")
      case False
      with nq less.prems s obtain t' where "scanstring cs = Some (t', r)"
        by (auto split: if_splits option.splits)
      from IH [OF this] s show ?thesis by simp
    next
      case bs: True
      from less.prems nq bs s obtain e es where cs: "cs = e # es"
        by (cases cs) auto
      show ?thesis
      proof (cases "e = CHR ''u''")
        case False
        with less.prems nq bs cs s obtain t' where "scanstring es = Some (t', r)"
          by (auto split: option.splits)
        from IH [OF this] s cs show ?thesis by simp
      next
        case u: True
        from less.prems nq bs cs u s obtain h1 h2 h3 h4 r0 where es: "es = h1 # h2 # h3 # h4 # r0"
          by (auto split: list.splits)
        with less.prems nq bs cs u s obtain t' where "scanstring r0 = Some (t', r)"
          by (auto split: option.splits if_splits)
        from IH [OF this] s cs es show ?thesis by simp
      qed
    qed
  qed
qed

lemma literal_consumes: "literal l s = Some r \<Longrightarrow> length r \<le> length s"
  by (auto simp: literal_def split: if_splits)

lemma dropWhile_le: "length xs \<le> n \<Longrightarrow> length (dropWhile P xs) \<le> n"
  by (rule order_trans [OF length_dropWhile_le])

lemma scan_intpart_consumes: "scan_intpart s = Some (ds, r) \<Longrightarrow> length r \<le> length s"
  by (auto simp: scan_intpart_def split: list.splits if_splits
           intro: dropWhile_le)

lemma scan_frac_consumes: "scan_frac s = (f, r) \<Longrightarrow> length r \<le> length s"
  by (auto simp: scan_frac_def split: list.splits if_splits
           intro: dropWhile_le)

lemma scan_exp_consumes: "scan_exp s = (f, r) \<Longrightarrow> length r \<le> length s"
  by (auto simp: scan_exp_def split: list.splits if_splits
           intro: dropWhile_le)

lemma scan_number_consumes:
  assumes "scan_number s = Some (v, r)"
  shows "length r \<le> length s"
proof -
  obtain sign s1 where 1: "(case s of [] \<Rightarrow> ([], s)
      | c # cs \<Rightarrow> if c = CHR ''-'' then ([c], cs) else ([], s)) = (sign, s1)"
    by (cases "(case s of [] \<Rightarrow> ([], s)
      | c # cs \<Rightarrow> if c = CHR ''-'' then ([c], cs) else ([], s))") auto
  then have l1: "length s1 \<le> length s"
    by (auto split: list.splits if_splits)
  from assms 1 obtain ds s2 where 2: "scan_intpart s1 = Some (ds, s2)"
    by (auto simp: scan_number_def split: option.splits)
  obtain fr s3 where 3: "scan_frac s2 = (fr, s3)" by (cases "scan_frac s2")
  obtain ex s4 where 4: "scan_exp s3 = (ex, s4)" by (cases "scan_exp s3")
  from assms 1 2 3 4 have "r = s4"
    by (auto simp: scan_number_def split: if_splits)
  with l1 scan_intpart_consumes [OF 2] scan_frac_consumes [OF 3] scan_exp_consumes [OF 4]
  show ?thesis by simp
qed

lemma json_value_step_consumes:
  assumes M: "\<And>s acc v r. json_members n s acc = Some (v, r) \<Longrightarrow> length r \<le> length s"
    and E: "\<And>s acc v r. json_elements n s acc = Some (v, r) \<Longrightarrow> length r \<le> length s"
    and a: "json_value (Suc n) s = Some (v, r)"
  shows "length r \<le> length s"
proof -
  from a obtain c cs where s: "s = c # cs" by (cases s) auto
  from a have a: "json_value (Suc n) (c # cs) = Some (v, r)" unfolding s .
  show ?thesis
  proof (cases "c = CHR 0x22")
    case True
    from a have "(case scanstring cs of None \<Rightarrow> None | Some (t, r) \<Rightarrow> Some (PStr t, r))
        = Some (v, r)"
      unfolding True by simp
    then obtain t where "scanstring cs = Some (t, r)"
      by (auto split: option.splits)
    from scanstring_consumes [OF this] s show ?thesis by simp
  next
    case q: False
    show ?thesis
    proof (cases "c = CHR ''{''")
      case True
      from a have b: "(case skip_ws cs of [] \<Rightarrow> None
           | d # r \<Rightarrow> if d = CHR ''}'' then Some (PDict [], r)
                      else if d = CHR 0x22 then json_members n r [] else None) = Some (v, r)"
        unfolding True by simp
      then obtain d r' where d: "skip_ws cs = d # r'"
        by (cases "skip_ws cs") auto
      from b d have "r = r' \<or> json_members n r' [] = Some (v, r)"
        by (auto split: if_splits)
      with M [of r' "[]" v r] skip_ws_Cons [OF d] s show ?thesis by auto
    next
      case b: False
      show ?thesis
      proof (cases "c = CHR ''[''")
        case True
        from a have e: "(case skip_ws cs of [] \<Rightarrow> None
             | d # r \<Rightarrow> if d = CHR '']'' then Some (PList [], r)
                        else json_elements n (d # r) []) = Some (v, r)"
          unfolding True by simp
        then obtain d r' where d: "skip_ws cs = d # r'"
          by (cases "skip_ws cs") auto
        from e d have "r = r' \<or> json_elements n (d # r') [] = Some (v, r)"
          by (auto split: if_splits)
        with E [of "d # r'" "[]" v r] skip_ws_Cons [OF d] s show ?thesis by auto
      next
        case k: False
        show ?thesis
        proof (cases "c = CHR ''n''")
          case True
          from a have "literal ''ull'' cs = Some r"
            unfolding True by (simp split: option.splits)
          from literal_consumes [OF this] s show ?thesis by simp
        next
          case n: False
          show ?thesis
          proof (cases "c = CHR ''t''")
            case True
            from a have "literal ''rue'' cs = Some r"
              unfolding True by (simp split: option.splits)
            from literal_consumes [OF this] s show ?thesis by simp
          next
            case t: False
            show ?thesis
            proof (cases "c = CHR ''f''")
              case True
              from a have "literal ''alse'' cs = Some r"
                unfolding True by (simp split: option.splits)
              from literal_consumes [OF this] s show ?thesis by simp
            next
              case False
              with a q b k n t have
                "(case scan_number (c # cs) of
                    Some x \<Rightarrow> Some x
                  | None \<Rightarrow>
                     (case literal ''NaN'' (c # cs) of
                        Some r \<Rightarrow> Some (PFloat ''NaN'', r)
                      | None \<Rightarrow>
                         (case literal ''Infinity'' (c # cs) of
                            Some r \<Rightarrow> Some (PFloat ''Infinity'', r)
                          | None \<Rightarrow>
                             (case literal ''-Infinity'' (c # cs) of
                                Some r \<Rightarrow> Some (PFloat ''-Infinity'', r)
                              | None \<Rightarrow> None)))) = Some (v, r)"
                by simp
              then have "scan_number (c # cs) = Some (v, r) \<or> (\<exists>l. literal l (c # cs) = Some r)"
                by (auto split: option.splits)
              with scan_number_consumes literal_consumes s show ?thesis by blast
            qed
          qed
        qed
      qed
    qed
  qed
qed

lemma json_consumes:
  "(\<forall>s v r. json_value n s = Some (v, r) \<longrightarrow> length r \<le> length s)
   \<and> (\<forall>s acc v r. json_members n s acc = Some (v, r) \<longrightarrow> length r \<le> length s)
   \<and> (\<forall>s acc v r. json_elements n s acc = Some (v, r) \<longrightarrow> length r \<le> length s)"
proof (induction n)
  case 0
  show ?case by simp
next
  case (Suc n)
  then have V: "\<And>s v r. json_value n s = Some (v, r) \<Longrightarrow> length r \<le> length s"
    and M: "\<And>s acc v r. json_members n s acc = Some (v, r) \<Longrightarrow> length r \<le> length s"
    and E: "\<And>s acc v r. json_elements n s acc = Some (v, r) \<Longrightarrow> length r \<le> length s"
    by blast+
  have "length r \<le> length s" if "json_value (Suc n) s = Some (v, r)" for s v r
    using json_value_step_consumes [OF M E that] .
  moreover have "length r \<le> length s" if a: "json_members (Suc n) s acc = Some (v, r)"
    for s acc v r
  proof -
    from a obtain key r1 where k: "scanstring s = Some (key, r1)"
      by (cases "scanstring s") auto
    from a k obtain c r2 where c: "skip_ws r1 = c # r2"
      by (cases "skip_ws r1") auto
    from a k c have col: "c = CHR '':''" by (auto split: if_splits)
    from a k c col obtain v1 r3 where v1: "json_value n (skip_ws r2) = Some (v1, r3)"
      by (cases "json_value n (skip_ws r2)") auto
    from a k c col v1 obtain d r4 where d: "skip_ws r3 = d # r4"
      by (cases "skip_ws r3") auto
    have l4: "length r4 < length s"
      using scanstring_consumes [OF k] skip_ws_Cons [OF c] length_skip_ws [of r2]
        V [OF v1] skip_ws_Cons [OF d] by linarith
    show ?thesis
    proof (cases "d = CHR ''}''")
      case True
      with a k c col v1 d l4 show ?thesis by auto
    next
      case False
      with a k c col v1 d obtain q r5 where q: "skip_ws r4 = q # r5"
        "json_members n r5 (AList.update key v1 acc) = Some (v, r)"
        by (cases "skip_ws r4") (auto split: if_splits)
      from M [OF q(2)] skip_ws_Cons [OF q(1)] l4 show ?thesis by linarith
    qed
  qed
  moreover have "length r \<le> length s" if a: "json_elements (Suc n) s acc = Some (v, r)"
    for s acc v r
  proof -
    from a obtain v1 r1 where v1: "json_value n s = Some (v1, r1)"
      by (cases "json_value n s") auto
    from a v1 obtain d r2 where d: "skip_ws r1 = d # r2"
      by (cases "skip_ws r1") auto
    have l2: "length r2 < length s"
      using V [OF v1] skip_ws_Cons [OF d] by linarith
    show ?thesis
    proof (cases "d = CHR '']''")
      case True
      with a v1 d l2 show ?thesis by auto
    next
      case False
      with a v1 d have "json_elements n (skip_ws r2) (acc @ [v1]) = Some (v, r)"
        by (auto split: if_splits)
      from E [OF this] length_skip_ws [of r2] l2 show ?thesis by linarith
    qed
  qed
  ultimately show ?case by blast
qed

lemma json_fuel_step:
  "(\<forall>s. 2 * length s < n \<longrightarrow> json_value (Suc n) s = json_value n s)
   \<and> (\<forall>s acc. 2 * length s < n \<longrightarrow> json_members (Suc n) s acc = json_members n s acc)
   \<and> (\<forall>s acc. 2 * length s + 1 < n \<longrightarrow> json_elements (Suc n) s acc = json_elements n s acc)"
proof (induction n)
  case 0
  show ?case by simp
next
  case (Suc n)
  then have V: "\<And>s. 2 * length s < n \<Longrightarrow> json_value (Suc n) s = json_value n s"
    and M: "\<And>s acc. 2 * length s < n \<Longrightarrow> json_members (Suc n) s acc = json_members n s acc"
    and E: "\<And>s acc. 2 * length s + 1 < n \<Longrightarrow>
              json_elements (Suc n) s acc = json_elements n s acc"
    by blast+
  have "json_value (Suc (Suc n)) s = json_value (Suc n) s" if l: "2 * length s < Suc n" for s
  proof (cases s)
    case Nil
    then show ?thesis by simp
  next
    case (Cons c cs)
    show ?thesis
    proof (cases "skip_ws cs")
      case Nil
      with Cons show ?thesis by simp
    next
      case (Cons d r)
      from skip_ws_Cons [OF Cons] l \<open>s = c # cs\<close>
      have "2 * length r < n" "2 * length (d # r) + 1 < n" by simp_all
      from M [OF this(1)] E [OF this(2)] Cons \<open>s = c # cs\<close> show ?thesis by simp
    qed
  qed
  moreover have "json_members (Suc (Suc n)) s acc = json_members (Suc n) s acc"
    if l: "2 * length s < Suc n" for s acc
  proof (cases "scanstring s")
    case None
    then show ?thesis by simp
  next
    case (Some p)
    obtain key r1 where p: "p = (key, r1)" by (cases p)
    note k = Some [unfolded p]
    show ?thesis
    proof (cases "skip_ws r1")
      case Nil
      with k show ?thesis by simp
    next
      case (Cons c r2)
      have l2: "length (skip_ws r2) + 2 \<le> length s"
        using scanstring_consumes [OF k] skip_ws_Cons [OF Cons] length_skip_ws [of r2]
        by linarith
      with l have "2 * length (skip_ws r2) < n" by linarith
      note v = V [OF this]
      show ?thesis
      proof (cases "json_value n (skip_ws r2)")
        case None
        with k Cons v show ?thesis by simp
      next
        case (Some x)
        obtain v1 r3 where x: "x = (v1, r3)" by (cases x)
        note v1 = Some [unfolded x]
        from json_consumes [of n] v1 have l3: "length r3 \<le> length (skip_ws r2)" by blast
        show ?thesis
        proof (cases "skip_ws r3")
          case Nil
          with k Cons v v1 show ?thesis by simp
        next
          case d: (Cons d r4)
          show ?thesis
          proof (cases "skip_ws r4")
            case Nil
            with k Cons v v1 d show ?thesis by simp
          next
            case q: (Cons q r5)
            from skip_ws_Cons [OF d] skip_ws_Cons [OF q] l3 l2 l have "2 * length r5 < n"
              by linarith
            from M [OF this] k Cons v v1 d q show ?thesis by simp
          qed
        qed
      qed
    qed
  qed
  moreover have "json_elements (Suc (Suc n)) s acc = json_elements (Suc n) s acc"
    if l: "2 * length s + 1 < Suc n" for s acc
  proof -
    from l have "2 * length s < n" by simp
    note v = V [OF this]
    show ?thesis
    proof (cases "json_value n s")
      case None
      with v show ?thesis by simp
    next
      case (Some x)
      obtain v1 r1 where x: "x = (v1, r1)" by (cases x)
      note v1 = Some [unfolded x]
      from json_consumes [of n] v1 have l1: "length r1 \<le> length s" by blast
      show ?thesis
      proof (cases "skip_ws r1")
        case Nil
        with v v1 show ?thesis by simp
      next
        case (Cons d r2)
        from skip_ws_Cons [OF Cons] length_skip_ws [of r2] l1 l
        have "2 * length (skip_ws r2) + 1 < n" by linarith
        from E [OF this] v v1 Cons show ?thesis by simp
      qed
    qed
  qed
  ultimately show ?case by blast
qed

lemma json_value_fuel:
  "2 * length s < n \<Longrightarrow> json_value n s = json_value (Suc (2 * length s)) s"
proof (induction n)
  case 0
  then show ?case by simp
next
  case (Suc n)
  show ?case
  proof (cases "2 * length s < n")
    case True
    with json_fuel_step [of n] Suc.IH show ?thesis by simp
  next
    case False
    with Suc.prems have "n = 2 * length s" by simp
    then show ?thesis by simp
  qed
qed

lemma json_loads_fuel:
  assumes "2 * length s < n"
  shows "json_loads s =
           (case json_value n (skip_ws s) of
              None \<Rightarrow> None
            | Some (v, r) \<Rightarrow> if skip_ws r = [] then Some v else None)"
proof -
  from assms length_skip_ws [of s] have a: "2 * length (skip_ws s) < n" by linarith
  from length_skip_ws [of s] have "2 * length (skip_ws s) < Suc (2 * length s)" by linarith
  from json_value_fuel [OF a] json_value_fuel [OF this] show ?thesis
    by (simp add: json_loads_def)
qed

section \<open>Properties of \<^verbatim>\<open>Tool.run\<close>\<close>

lemma validate_None_iff:
  "validate n (PDict kvs) ps = None \<longleftrightarrow>
     (\<forall>(k, t) \<in> set ps. \<exists>v. map_of kvs k = Some v \<and> isinstance v t)"
  by (induction ps) (auto split: option.splits if_splits)

lemma validate_dict_Some:
  "validate n (PDict kvs) ps = Some e \<Longrightarrow>
     \<exists>k t. (k, t) \<in> set ps \<and>
       (map_of kvs k = None \<and> e = MissingParameter k n \<or>
        (\<exists>v. map_of kvs k = Some v \<and> \<not> isinstance v t \<and> e = WrongParameterType k t (type_of v)))"
proof (induction ps)
  case Nil
  then show ?case by simp
next
  case (Cons p ps)
  obtain k t where p: "p = (k, t)" by (cases p)
  show ?case
  proof (cases "check_parameter n (PDict kvs) k t")
    case None
    with Cons p show ?thesis by auto
  next
    case (Some e')
    with Cons.prems p have "e' = e" by simp
    with Some p show ?thesis
      by (auto split: option.splits if_splits)
  qed
qed



text \<open>
  C2. When the argument dictionary misses a declared parameter, or binds one to a value
  that is no instance of the declared class, \<^verbatim>\<open>Tool.run\<close> raises the parameter error of the
  first declared parameter in fault (\<^verbatim>\<open>ValueError\<close> for a missing one, \<^verbatim>\<open>TypeError\<close> for a wrong
  class); the callable is not invoked and the world is untouched. The tool has no error
  policy and no retry that could change this.
\<close>

theorem Tool_run_rejects_bad_arguments:
  assumes "(k, t) \<in> set (input_parameters tool)"
    and "map_of kvs k = None \<or> (\<exists>v. map_of kvs k = Some v \<and> \<not> isinstance v t)"
  shows "\<exists>e k' t'. Tool_run tool (PDict kvs) w = \<lparr>result = Inl e, invocations = [], world = w\<rparr>
           \<and> (k', t') \<in> set (input_parameters tool)
           \<and> (map_of kvs k' = None \<and> e = MissingParameter k' (Tool.name tool) \<or>
              (\<exists>v. map_of kvs k' = Some v \<and> \<not> isinstance v t' \<and>
                   e = WrongParameterType k' t' (type_of v)))"
proof -
  from assms have "validate (Tool.name tool) (PDict kvs) (input_parameters tool) \<noteq> None"
    unfolding validate_None_iff by (auto intro!: bexI [of _ "(k, t)"])
  then obtain e where e: "validate (Tool.name tool) (PDict kvs) (input_parameters tool) = Some e"
    by auto
  from validate_dict_Some [OF e] e show ?thesis
    by (auto simp: Tool_run_def)
qed

theorem Tool_run_rejects_bad_arguments_witness:
  "(\<exists>e. Tool_run fact_generator (PDict []) () = \<lparr>result = Inl e, invocations = [], world = ()\<rparr>
        \<and> exception_class e = ''ValueError'')
   \<and> (\<exists>e. Tool_run fact_generator (PDict [(''text'', PInt 7)]) () =
              \<lparr>result = Inl e, invocations = [], world = ()\<rparr>
        \<and> exception_class e = ''TypeError'')"
proof -
  have m: "(''text'', TStr) \<in> set (input_parameters (fact_generator :: unit Tool))"
    by (simp add: fact_generator_def)
  have a: "map_of [] ''text'' = None \<or>
           (\<exists>v. map_of ([] :: (string \<times> pyval) list) ''text'' = Some v \<and> \<not> isinstance v TStr)"
    by simp
  have b: "map_of [(''text'', PInt 7)] ''text'' = None \<or>
           (\<exists>v. map_of [(''text'', PInt 7)] ''text'' = Some v \<and> \<not> isinstance v TStr)"
    by (simp add: isinstance_def)
  from Tool_run_rejects_bad_arguments [OF m a, of "()"]
       Tool_run_rejects_bad_arguments [OF m b, of "()"]
  show ?thesis
    by (auto simp: fact_generator_def isinstance_def)
qed

text \<open>
  C10. When every declared parameter is present with a value of its class, \<^verbatim>\<open>Tool.run\<close>
  invokes the callable once with the whole argument dictionary, undeclared keys included
  and in the dictionary's order, and returns or raises what that invocation does.
  Validation looks at the declared keys only.
\<close>

theorem Tool_run_forwards_all_arguments:
  assumes "\<forall>(k, t) \<in> set (input_parameters tool). \<exists>v. map_of kvs k = Some v \<and> isinstance v t"
  shows "Tool_run tool (PDict kvs) w =
           \<lparr>result = fst (call_function tool kvs w), invocations = [kvs],
            world = snd (call_function tool kvs w)\<rparr>"
  using assms validate_None_iff [of "Tool.name tool" kvs "input_parameters tool"]
  by (simp add: Tool_run_def split: prod.splits)

theorem Tool_run_forwards_all_arguments_witness:
  "Tool_run fact_generator (PDict [(''text'', PStr ''Mars''), (''lang'', PStr ''en'')]) () =
     \<lparr>result = Inl (Fault ''TypeError'' ''fact_generator_tool() got unexpected arguments''),
      invocations = [[(''text'', PStr ''Mars''), (''lang'', PStr ''en'')]], world = ()\<rparr>
   \<and> Tool_run fact_generator (PDict [(''text'', PStr ''Mars'')]) () =
     \<lparr>result = Inr (PStr ''Humans finally reached Mars on 27th Feb 2300.''),
      invocations = [[(''text'', PStr ''Mars'')]], world = ()\<rparr>"
proof -
  have a: "\<forall>(k, t) \<in> set (input_parameters (fact_generator :: unit Tool)).
             \<exists>v. map_of [(''text'', PStr ''Mars''), (''lang'', PStr ''en'')] k = Some v
                 \<and> isinstance v t"
    by (simp add: fact_generator_def isinstance_def)
  have b: "\<forall>(k, t) \<in> set (input_parameters (fact_generator :: unit Tool)).
             \<exists>v. map_of [(''text'', PStr ''Mars'')] k = Some v \<and> isinstance v t"
    by (simp add: fact_generator_def isinstance_def)
  from Tool_run_forwards_all_arguments [OF a, of "()"]
       Tool_run_forwards_all_arguments [OF b, of "()"]
  show ?thesis
    by (simp add: fact_generator_def fact_generator_tool_def)
qed

section \<open>The round-robin router\<close>

text \<open>
  C7. For a list of \<open>n\<close> agent names, the round-robin router answers a call count
  \<open>0 \<le> c < n\<close> with the name at index \<open>c\<close>, and a call count \<open>c \<ge> n\<close> with the result whose
  next agent is \<^verbatim>\<open>None\<close>, the signal to stop; it leaves the state as it is. (A call count
  is never negative in the pool.)
\<close>

theorem round_robin_router_selects:
  "(0 \<le> call_count \<and> call_count < int (length agent_names) \<longrightarrow>
      round_robin_router agent_names s call_count l =
        (Inr (Some \<lparr>next_agent_name = Some (agent_names ! nat call_count)\<rparr>), s))
   \<and> (int (length agent_names) \<le> call_count \<longrightarrow>
      round_robin_router agent_names s call_count l =
        (Inr (Some \<lparr>next_agent_name = None\<rparr>), s))"
  by (auto simp: round_robin_router_def)

theorem round_robin_router_selects_witness:
  "round_robin_router [''A'', ''B'', ''C''] (State_init None) 0 None
     = (Inr (Some \<lparr>next_agent_name = Some ''A''\<rparr>), State_init None)
   \<and> round_robin_router [''A'', ''B'', ''C''] (State_init None) 1 None
     = (Inr (Some \<lparr>next_agent_name = Some ''B''\<rparr>), State_init None)
   \<and> round_robin_router [''A'', ''B'', ''C''] (State_init None) 2 None
     = (Inr (Some \<lparr>next_agent_name = Some ''C''\<rparr>), State_init None)
   \<and> round_robin_router [''A'', ''B'', ''C''] (State_init None) 3 None
     = (Inr (Some \<lparr>next_agent_name = None\<rparr>), State_init None)"
  using round_robin_router_selects [of 0 "[''A'', ''B'', ''C'']" "State_init None" None]
    round_robin_router_selects [of 1 "[''A'', ''B'', ''C'']" "State_init None" None]
    round_robin_router_selects [of 2 "[''A'', ''B'', ''C'']" "State_init None" None]
    round_robin_router_selects [of 3 "[''A'', ''B'', ''C'']" "State_init None" None]
  by simp

section \<open>Properties of the response parser\<close>

lemma tool_request_keys:
  "tool_request v = Some tc \<Longrightarrow>
     v = PDict tc \<and> (\<exists>a b. map_of tc ''tool'' = Some a \<and> map_of tc ''args'' = Some b)"
  by (cases v) (auto simp: tool_request_def split: if_splits)

lemma parse_tool_call_keys:
  "parse_tool_call r = Some tc \<Longrightarrow> \<exists>a b. map_of tc ''tool'' = Some a \<and> map_of tc ''args'' = Some b"
  by (auto simp: parse_tool_call_def parse_plain_def parse_fenced_def
           split: option.splits dest: tool_request_keys)

lemma scan_number_not_dict: "scan_number s \<noteq> Some (PDict kvs, r)"
  by (auto simp: scan_number_def split: prod.splits option.splits list.splits if_splits)

lemma json_elements_list:
  "json_elements n s acc = Some (v, r) \<Longrightarrow> \<exists>xs. v = PList xs"
proof (induction n arbitrary: s acc)
  case 0
  then show ?case by simp
next
  case (Suc n)
  from Suc.prems obtain v1 r1 where v1: "json_value n s = Some (v1, r1)"
    by (cases "json_value n s") auto
  from Suc.prems v1 obtain d r2 where d: "skip_ws r1 = d # r2"
    by (cases "skip_ws r1") auto
  show ?case
  proof (cases "d = CHR '']''")
    case True
    with Suc.prems v1 d show ?thesis by auto
  next
    case False
    with Suc.prems v1 d have "json_elements n (skip_ws r2) (acc @ [v1]) = Some (v, r)"
      by (simp split: if_splits)
    then show ?thesis by (rule Suc.IH)
  qed
qed

lemma json_value_dict_brace:
  assumes "json_value n s = Some (PDict kvs, r)"
  shows "\<exists>cs. s = CHR ''{'' # cs"
proof (cases n)
  case 0
  with assms show ?thesis by simp
next
  case (Suc m)
  show ?thesis
  proof (cases s)
    case Nil
    with assms Suc show ?thesis by simp
  next
    case (Cons c cs)
    from assms have a: "json_value (Suc m) (c # cs) = Some (PDict kvs, r)"
      unfolding Suc Cons .
    show ?thesis
    proof (cases "c = CHR ''{''")
      case True
      with Cons show ?thesis by simp
    next
      case brace: False
      have False
      proof (cases "c = CHR 0x22")
        case True
        from a show False unfolding True
          by (simp split: option.splits prod.splits)
      next
        case q: False
        show False
        proof (cases "c = CHR ''[''")
          case True
          from a have "(case skip_ws cs of [] \<Rightarrow> None
                 | d # r' \<Rightarrow> if d = CHR '']'' then Some (PList [], r')
                            else json_elements m (d # r') []) = Some (PDict kvs, r)"
            unfolding True by simp
          then show False
            by (auto split: list.splits if_splits dest: json_elements_list)
        next
          case b: False
          show False
          proof (cases "c = CHR ''n''")
            case True
            from a show False unfolding True by (simp split: option.splits)
          next
            case n: False
            show False
            proof (cases "c = CHR ''t''")
              case True
              from a show False unfolding True by (simp split: option.splits)
            next
              case t: False
              show False
              proof (cases "c = CHR ''f''")
                case True
                from a show False unfolding True by (simp split: option.splits)
              next
                case False
                with a q brace b n t have
                  "(case scan_number (c # cs) of
                      Some x \<Rightarrow> Some x
                    | None \<Rightarrow>
                       (case literal ''NaN'' (c # cs) of
                          Some r \<Rightarrow> Some (PFloat ''NaN'', r)
                        | None \<Rightarrow>
                           (case literal ''Infinity'' (c # cs) of
                              Some r \<Rightarrow> Some (PFloat ''Infinity'', r)
                            | None \<Rightarrow>
                               (case literal ''-Infinity'' (c # cs) of
                                  Some r \<Rightarrow> Some (PFloat ''-Infinity'', r)
                                | None \<Rightarrow> None)))) = Some (PDict kvs, r)"
                  by simp
                with scan_number_not_dict [of "c # cs" kvs r] show False
                  by (cases "scan_number (c # cs)") (auto split: option.splits)
              qed
            qed
          qed
        qed
      qed
      then show ?thesis ..
    qed
  qed
qed

lemma json_loads_dict_brace:
  assumes "json_loads s = Some (PDict kvs)"
  shows "CHR ''{'' \<in> set s"
proof -
  from assms obtain r where "json_value (Suc (2 * length s)) (skip_ws s) = Some (PDict kvs, r)"
    by (auto simp: json_loads_def split: option.splits if_splits)
  from json_value_dict_brace [OF this] have "CHR ''{'' \<in> set (skip_ws s)" by auto
  then show ?thesis unfolding skip_ws_def by (rule set_dropWhileD)
qed

lemma set_strip: "set (strip s) \<subseteq> set s"
proof -
  have "set (strip s) \<subseteq> set (rev (dropWhile isspace s))"
    unfolding strip_def set_rev by (auto dest: set_dropWhileD)
  also have "\<dots> \<subseteq> set s" by (auto dest: set_dropWhileD)
  finally show ?thesis .
qed

lemma after_fence_brace: "after_fence s = Some g \<Longrightarrow> CHR ''{'' \<in> set s"
proof -
  assume "after_fence s = Some g"
  then have "CHR ''{'' \<in> set (dropWhile isspace s)"
    by (auto simp: after_fence_def split: list.splits if_splits)
  then show ?thesis by (rule set_dropWhileD)
qed

lemma match_here_brace: "match_here s = Some g \<Longrightarrow> CHR ''{'' \<in> set s"
  by (auto simp: match_here_def Let_def split: if_splits option.splits
           dest!: after_fence_brace in_set_dropD)

lemma re_search_brace: "re_search s = Some g \<Longrightarrow> CHR ''{'' \<in> set s"
  by (induction s) (auto split: option.splits dest: match_here_brace)

lemma no_brace_no_tool_call:
  assumes "CHR ''{'' \<notin> set raw"
  shows "parse_tool_call raw = None"
proof -
  have "parse_plain raw = None"
  proof (cases "json_loads (strip raw)")
    case None
    then show ?thesis by (simp add: parse_plain_def)
  next
    case (Some v)
    show ?thesis
    proof (cases "tool_request v")
      case None
      with Some show ?thesis by (simp add: parse_plain_def)
    next
      case (Some tc)
      with tool_request_keys have "v = PDict tc" by blast
      with \<open>json_loads (strip raw) = Some v\<close> have "CHR ''{'' \<in> set (strip raw)"
        by (auto dest: json_loads_dict_brace)
      with set_strip assms show ?thesis by blast
    qed
  qed
  moreover from assms have "re_search raw = None"
    by (cases "re_search raw") (auto dest: re_search_brace)
  ultimately show ?thesis
    by (simp add: parse_tool_call_def parse_fenced_def)
qed

lemma digits_chars: "c \<in> set (digits n) \<Longrightarrow> (of_char c :: nat) < 58"
proof (induction n arbitrary: c rule: digits.induct)
  case (1 n)
  show ?case
  proof (cases "n < 10")
    case True
    with "1.prems" show ?thesis by (subst (asm) digits.simps) simp
  next
    case False
    have "n mod 10 < 10" by simp
    then have m: "(48 + n mod 10) mod 256 < 58" by linarith
    from "1.prems" False have "c \<in> set (digits (n div 10)) \<or> c = char_of (48 + n mod 10)"
      by (subst (asm) digits.simps) auto
    with "1.IH" [OF False] m show ?thesis by auto
  qed
qed

lemma stopped_message_no_brace: "CHR ''{'' \<notin> set (stopped_message k)"
proof -
  have "CHR ''{'' \<notin> set (digits n)" for n
    using digits_chars [of "CHR ''{''" n] by auto
  then show ?thesis
    by (simp add: stopped_message_def str_int_def)
qed

text \<open>
  The text a successful decoding has consumed is a sequence of tokens, and the keys of a
  decoded object are among its string literals. Hence the two stages of the parser
  exclude each other: when the whole response decodes, a fence lies inside a string
  literal of it, and what is outside the literals of the fenced group is inside the
  literals of the response and conversely; a key of the group would consist of
  characters that the response has outside its literals, so it is not \<^verbatim>\<open>tool\<close>.
\<close>

lemma lex_append:
  "lex st (a @ b) = (case lex st a of None \<Rightarrow> None | Some st' \<Rightarrow> lex st' b)"
  by (induction a arbitrary: st) (auto split: option.splits)

lemma isspace_not_special:
  "isspace c \<Longrightarrow> c \<noteq> CHR 0x22 \<and> c \<noteq> CHR 0x5C \<and> c \<noteq> CHR ''`'' \<and> c \<noteq> CHR ''o''"
  by (auto simp: isspace_def)

lemma is_digit_not_special:
  "is_digit c \<Longrightarrow> c \<noteq> CHR 0x22 \<and> c \<noteq> CHR 0x5C \<and> c \<noteq> CHR ''`'' \<and> c \<noteq> CHR ''o''"
  by (auto simp: is_digit_def)

lemma out_char_not_special:
  assumes "out_char c"
  shows "c \<noteq> CHR 0x5C \<and> c \<noteq> CHR ''`'' \<and> c \<noteq> CHR ''o''"
proof -
  from assms consider "isspace c" | "is_digit c" | "c \<in> set ''{}[]:,-+.eEtrufalsnNIiy''"
    unfolding out_char_def by blast
  then show ?thesis
  proof cases
    case 1
    with isspace_not_special show ?thesis by blast
  next
    case 2
    with is_digit_not_special show ?thesis by blast
  next
    case 3
    then show ?thesis by auto
  qed
qed

lemma plain_not_special: "plain c \<Longrightarrow> c \<noteq> CHR 0x22 \<and> c \<noteq> CHR 0x5C"
  using out_char_not_special [of c] by (simp add: plain_def)

lemma json_ws_isspace: "json_ws c \<Longrightarrow> isspace c"
  by (auto simp: json_ws_def isspace_def)

lemma isspace_plain: "isspace c \<Longrightarrow> plain c"
  using isspace_not_special [of c] by (simp add: plain_def out_char_def)

lemma json_ws_plain: "json_ws c \<Longrightarrow> plain c"
  by (rule isspace_plain) (rule json_ws_isspace)

lemma toks_append: "toks u ts \<Longrightarrow> toks w ts' \<Longrightarrow> toks (u @ w) (ts @ ts')"
  by (induction rule: toks.induct) (auto intro: toks.intros)

lemma toks_plain_list: "\<forall>c \<in> set w. plain c \<Longrightarrow> toks w []"
  by (induction w) (auto intro: toks.intros)

lemma toks_plain_app: "\<forall>c \<in> set w. plain c \<Longrightarrow> toks u ts \<Longrightarrow> toks (w @ u) ts"
  using toks_append [OF toks_plain_list, of w u ts] by simp

lemma toks_app_plain: "toks u ts \<Longrightarrow> \<forall>c \<in> set w. plain c \<Longrightarrow> toks (u @ w) ts"
  using toks_append [OF _ toks_plain_list, of u ts w] by simp

lemma skip_ws_split:
  "\<exists>w. s = w @ skip_ws s \<and> (\<forall>c \<in> set w. plain c)"
proof -
  have "s = takeWhile json_ws s @ skip_ws s" by (simp add: skip_ws_def)
  moreover have "\<forall>c \<in> set (takeWhile json_ws s). plain c"
    by (auto dest: set_takeWhileD json_ws_plain)
  ultimately show ?thesis by blast
qed

lemma scanstring_split:
  "scanstring s = Some (t, r) \<Longrightarrow> \<exists>b. s = b @ r \<and> scanstring b = Some (t, [])"
proof (induction "length s" arbitrary: s t r rule: less_induct)
  case less
  from less.prems obtain c cs where s: "s = c # cs" by (cases s) auto
  have IH: "\<exists>b. s' = b @ r' \<and> scanstring b = Some (t', [])"
    if "scanstring s' = Some (t', r')" "length s' < length s" for s' t' r'
    using less.hyps [OF that(2) that(1)] .
  show ?case
  proof (cases "c = CHR 0x22")
    case True
    with less.prems s have "s = [c] @ r" "scanstring [c] = Some (t, [])" by auto
    then show ?thesis by blast
  next
    case nq: False
    show ?thesis
    proof (cases "c = CHR 0x5C")
      case False
      with nq less.prems s obtain t' where t': "scanstring cs = Some (t', r)" "t = c # t'"
        "\<not> (of_char c :: nat) < 32"
        by (auto split: if_splits option.splits)
      from IH [OF t'(1)] s obtain b where b: "cs = b @ r" "scanstring b = Some (t', [])"
        by auto
      with nq False t' s have "s = (c # b) @ r" "scanstring (c # b) = Some (t, [])" by auto
      then show ?thesis by blast
    next
      case bs: True
      from less.prems nq bs s obtain e es where cs: "cs = e # es"
        by (cases cs) auto
      show ?thesis
      proof (cases "e = CHR ''u''")
        case False
        with less.prems nq bs cs s obtain x t' where t': "unescape e = Some x"
          "scanstring es = Some (t', r)" "t = x # t'"
          by (auto split: option.splits)
        from IH [OF t'(2)] s cs obtain b where b: "es = b @ r" "scanstring b = Some (t', [])"
          by auto
        with nq bs False t' s cs have "s = (c # e # b) @ r"
          "scanstring (c # e # b) = Some (t, [])" by auto
        then show ?thesis by blast
      next
        case u: True
        from less.prems nq bs cs u s obtain h1 h2 h3 h4 r0 where es: "es = h1 # h2 # h3 # h4 # r0"
          by (auto split: list.splits)
        with less.prems nq bs cs u s obtain n t' where t': "hex4 h1 h2 h3 h4 = Some n" "n < 256"
          "scanstring r0 = Some (t', r)" "t = char_of n # t'"
          by (auto split: option.splits if_splits)
        from IH [OF t'(3)] s cs es obtain b where b: "r0 = b @ r" "scanstring b = Some (t', [])"
          by auto
        with nq bs u t' s cs es have "s = (c # e # h1 # h2 # h3 # h4 # b) @ r"
          "scanstring (c # e # h1 # h2 # h3 # h4 # b) = Some (t, [])" by auto
        then show ?thesis by blast
      qed
    qed
  qed
qed

lemma numchar_plain: "numchar c \<Longrightarrow> plain c"
  using is_digit_not_special [of c] by (auto simp: numchar_def plain_def out_char_def)

lemma digits_split: "cs = takeWhile is_digit cs @ dropWhile is_digit cs"
  by simp

lemma numchar_intros:
  "is_digit c \<Longrightarrow> numchar c" "numchar CHR ''-''" "numchar CHR ''+''" "numchar CHR ''.''"
  "numchar CHR ''e''" "numchar CHR ''E''" "numchar CHR ''0''"
  by (simp_all add: numchar_def is_digit_def)

lemma takeWhile_numchar: "c \<in> set (takeWhile is_digit cs) \<Longrightarrow> numchar c"
  by (auto dest: set_takeWhileD intro: numchar_intros)

lemma scan_intpart_split:
  "scan_intpart s = Some (ds, r) \<Longrightarrow> s = ds @ r \<and> (\<forall>c \<in> set ds. numchar c)"
  by (auto simp: scan_intpart_def split: list.splits if_splits
           intro: numchar_intros takeWhile_numchar)

lemma scan_frac_split:
  "scan_frac s = (f, r) \<Longrightarrow> s = f @ r \<and> (\<forall>c \<in> set f. numchar c)"
  by (auto simp: scan_frac_def split: list.splits if_splits
           intro: numchar_intros takeWhile_numchar)

lemma scan_exp_split:
  "scan_exp s = (f, r) \<Longrightarrow> s = f @ r \<and> (\<forall>c \<in> set f. numchar c)"
  by (auto simp: scan_exp_def split: list.splits if_splits
           intro: numchar_intros takeWhile_numchar)

lemma scan_number_split:
  assumes "scan_number s = Some (v, r)"
  shows "\<exists>u. s = u @ r \<and> (\<forall>c \<in> set u. plain c)"
proof -
  obtain sign s1 where 1: "(case s of [] \<Rightarrow> ([], s)
      | c # cs \<Rightarrow> if c = CHR ''-'' then ([c], cs) else ([], s)) = (sign, s1)"
    by (cases "(case s of [] \<Rightarrow> ([], s)
      | c # cs \<Rightarrow> if c = CHR ''-'' then ([c], cs) else ([], s))") auto
  then have l1: "s = sign @ s1" "\<forall>c \<in> set sign. numchar c"
    by (auto split: list.splits if_splits intro: numchar_intros)
  from assms 1 obtain ds s2 where 2: "scan_intpart s1 = Some (ds, s2)"
    by (auto simp: scan_number_def split: option.splits)
  obtain fr s3 where 3: "scan_frac s2 = (fr, s3)" by (cases "scan_frac s2")
  obtain ex s4 where 4: "scan_exp s3 = (ex, s4)" by (cases "scan_exp s3")
  from assms 1 2 3 4 have "r = s4"
    by (auto simp: scan_number_def split: if_splits)
  with l1 scan_intpart_split [OF 2] scan_frac_split [OF 3] scan_exp_split [OF 4]
  have "s = (sign @ ds @ fr @ ex) @ r" "\<forall>c \<in> set (sign @ ds @ fr @ ex). numchar c"
    by auto
  with numchar_plain show ?thesis by blast
qed

lemma scan_number_keys: "scan_number s = Some (v, r) \<Longrightarrow> dict_keys v = {}"
  using scan_number_not_dict [of s _ r] by (cases v) auto

lemma literal_split: "literal l s = Some r \<Longrightarrow> s = l @ r"
  by (auto simp: literal_def split: if_splits) (metis append_take_drop_id)

lemma plain_literals:
  "plain CHR ''{''" "plain CHR ''}''" "plain CHR ''[''" "plain CHR '']''"
  "plain CHR '':''" "plain CHR '',''"
  "\<forall>c \<in> set ''null''. plain c" "\<forall>c \<in> set ''true''. plain c" "\<forall>c \<in> set ''false''. plain c"
  "\<forall>c \<in> set ''NaN''. plain c" "\<forall>c \<in> set ''Infinity''. plain c"
  "\<forall>c \<in> set ''-Infinity''. plain c"
  by (simp_all add: plain_def out_char_def)

lemma skip_ws_Cons_split:
  "skip_ws s = d # r \<Longrightarrow> \<exists>w. s = w @ d # r \<and> (\<forall>c \<in> set w. plain c)"
  using skip_ws_split [of s] by auto

lemma json_value_step_toks:
  assumes M: "\<And>s acc v r. json_members n s acc = Some (v, r) \<Longrightarrow>
      \<exists>u ts. s = u @ r \<and> toks (CHR 0x22 # u) ts \<and> dict_keys v \<subseteq> fst ` set acc \<union> set ts"
    and E: "\<And>s acc v r. json_elements n s acc = Some (v, r) \<Longrightarrow>
      \<exists>u ts. s = u @ r \<and> toks u ts \<and> dict_keys v = {}"
    and a: "json_value (Suc n) s = Some (v, r)"
  shows "\<exists>u ts. s = u @ r \<and> toks u ts \<and> dict_keys v \<subseteq> set ts"
proof -
  from a obtain c cs where s: "s = c # cs" by (cases s) auto
  from a have a: "json_value (Suc n) (c # cs) = Some (v, r)" unfolding s .
  show ?thesis
  proof (cases "c = CHR 0x22")
    case True
    from a have "(case scanstring cs of None \<Rightarrow> None | Some (t, r) \<Rightarrow> Some (PStr t, r))
        = Some (v, r)"
      unfolding True by simp
    then obtain t where t: "scanstring cs = Some (t, r)" "v = PStr t"
      by (auto split: option.splits)
    from scanstring_split [OF t(1)] obtain b where b: "cs = b @ r" "scanstring b = Some (t, [])"
      by blast
    from toks_string [OF b(2) toks_Nil] have "toks (CHR 0x22 # b) [t]" by simp
    with s True b t show ?thesis by auto
  next
    case q: False
    show ?thesis
    proof (cases "c = CHR ''{''")
      case True
      from a have b: "(case skip_ws cs of [] \<Rightarrow> None
           | d # r \<Rightarrow> if d = CHR ''}'' then Some (PDict [], r)
                      else if d = CHR 0x22 then json_members n r [] else None) = Some (v, r)"
        unfolding True by simp
      then obtain d r' where d: "skip_ws cs = d # r'"
        by (cases "skip_ws cs") auto
      from skip_ws_Cons_split [OF d] obtain w where w: "cs = w @ d # r'" "\<forall>c \<in> set w. plain c"
        by blast
      show ?thesis
      proof (cases "d = CHR ''}''")
        case cl: True
        with b d have v: "v = PDict []" "r = r'" by auto
        have "toks (CHR ''{'' # w @ [CHR ''}'']) []"
          using w(2) plain_literals by (auto intro!: toks_plain toks_plain_list)
        with s True w cl v show ?thesis by auto
      next
        case False
        with b d have dq: "d = CHR 0x22" and m: "json_members n r' [] = Some (v, r)"
          by (auto split: if_splits)
        from M [OF m] obtain u ts where u: "r' = u @ r" "toks (CHR 0x22 # u) ts"
          "dict_keys v \<subseteq> set ts" by auto
        from toks_plain_app [OF w(2) u(2)] plain_literals(1)
        have "toks (CHR ''{'' # w @ CHR 0x22 # u) ts" by (auto intro: toks_plain)
        with s True w dq u show ?thesis by auto
      qed
    next
      case b: False
      show ?thesis
      proof (cases "c = CHR ''[''")
        case True
        from a have e: "(case skip_ws cs of [] \<Rightarrow> None
             | d # r \<Rightarrow> if d = CHR '']'' then Some (PList [], r)
                        else json_elements n (d # r) []) = Some (v, r)"
          unfolding True by simp
        then obtain d r' where d: "skip_ws cs = d # r'"
          by (cases "skip_ws cs") auto
        from skip_ws_Cons_split [OF d] obtain w where w: "cs = w @ d # r'" "\<forall>c \<in> set w. plain c"
          by blast
        show ?thesis
        proof (cases "d = CHR '']''")
          case cl: True
          with e d have v: "v = PList []" "r = r'" by auto
          have "toks (CHR ''['' # w @ [CHR '']'']) []"
            using w(2) plain_literals by (auto intro!: toks_plain toks_plain_list)
          with s True w cl v show ?thesis by auto
        next
          case False
          with e d have m: "json_elements n (d # r') [] = Some (v, r)"
            by (auto split: if_splits)
          from E [OF m] obtain u ts where u: "d # r' = u @ r" "toks u ts" "dict_keys v = {}"
            by auto
          from toks_plain_app [OF w(2) u(2)] plain_literals(3)
          have "toks (CHR ''['' # w @ u) ts" by (auto intro: toks_plain)
          with s True w u show ?thesis by auto
        qed
      next
        case k: False
        have lit: "\<exists>u ts. s = u @ r \<and> toks u ts \<and> dict_keys v \<subseteq> set ts"
          if "s = l @ r" "\<forall>c \<in> set l. plain c" "dict_keys v = {}" for l
          using that toks_plain_list [of l] by auto
        show ?thesis
        proof (cases "c = CHR ''n''")
          case True
          from a have "literal ''ull'' cs = Some r \<and> v = PNone"
            unfolding True by (simp split: option.splits)
          with literal_split [of "''ull''" cs r] s True have "s = ''null'' @ r" "dict_keys v = {}"
            by auto
          with lit plain_literals show ?thesis by blast
        next
          case n: False
          show ?thesis
          proof (cases "c = CHR ''t''")
            case True
            from a have "literal ''rue'' cs = Some r \<and> v = PBool True"
              unfolding True by (simp split: option.splits)
            with literal_split [of "''rue''" cs r] s True have "s = ''true'' @ r" "dict_keys v = {}"
              by auto
            with lit plain_literals show ?thesis by blast
          next
            case t: False
            show ?thesis
            proof (cases "c = CHR ''f''")
              case True
              from a have "literal ''alse'' cs = Some r \<and> v = PBool False"
                unfolding True by (simp split: option.splits)
              with literal_split [of "''alse''" cs r] s True
              have "s = ''false'' @ r" "dict_keys v = {}"
                by auto
              with lit plain_literals show ?thesis by blast
            next
              case False
              with a q b k n t have
                "(case scan_number (c # cs) of
                    Some x \<Rightarrow> Some x
                  | None \<Rightarrow>
                     (case literal ''NaN'' (c # cs) of
                        Some r \<Rightarrow> Some (PFloat ''NaN'', r)
                      | None \<Rightarrow>
                         (case literal ''Infinity'' (c # cs) of
                            Some r \<Rightarrow> Some (PFloat ''Infinity'', r)
                          | None \<Rightarrow>
                             (case literal ''-Infinity'' (c # cs) of
                                Some r \<Rightarrow> Some (PFloat ''-Infinity'', r)
                              | None \<Rightarrow> None)))) = Some (v, r)"
                by simp
              then consider "scan_number (c # cs) = Some (v, r)"
                | "literal ''NaN'' (c # cs) = Some r" "dict_keys v = {}"
                | "literal ''Infinity'' (c # cs) = Some r" "dict_keys v = {}"
                | "literal ''-Infinity'' (c # cs) = Some r" "dict_keys v = {}"
                by (auto split: option.splits)
              then show ?thesis
              proof cases
                case 1
                from scan_number_split [OF 1] scan_number_keys [OF 1] lit s show ?thesis
                  by blast
              next
                case 2
                from literal_split [OF 2(1)] 2(2) lit s plain_literals show ?thesis by blast
              next
                case 3
                from literal_split [OF 3(1)] 3(2) lit s plain_literals show ?thesis by blast
              next
                case 4
                from literal_split [OF 4(1)] 4(2) lit s plain_literals show ?thesis by blast
              qed
            qed
          qed
        qed
      qed
    qed
  qed
qed

lemma update_keys: "fst ` set (AList.update k v al) = insert k (fst ` set al)"
  by (induction al) auto

lemma json_toks:
  "(\<forall>s v r. json_value n s = Some (v, r) \<longrightarrow>
      (\<exists>u ts. s = u @ r \<and> toks u ts \<and> dict_keys v \<subseteq> set ts))
   \<and> (\<forall>s acc v r. json_members n s acc = Some (v, r) \<longrightarrow>
      (\<exists>u ts. s = u @ r \<and> toks (CHR 0x22 # u) ts \<and> dict_keys v \<subseteq> fst ` set acc \<union> set ts))
   \<and> (\<forall>s acc v r. json_elements n s acc = Some (v, r) \<longrightarrow>
      (\<exists>u ts. s = u @ r \<and> toks u ts \<and> dict_keys v = {}))"
proof (induction n)
  case 0
  show ?case by simp
next
  case (Suc n)
  then have V: "\<And>s v r. json_value n s = Some (v, r) \<Longrightarrow>
      \<exists>u ts. s = u @ r \<and> toks u ts \<and> dict_keys v \<subseteq> set ts"
    and M: "\<And>s acc v r. json_members n s acc = Some (v, r) \<Longrightarrow>
      \<exists>u ts. s = u @ r \<and> toks (CHR 0x22 # u) ts \<and> dict_keys v \<subseteq> fst ` set acc \<union> set ts"
    and E: "\<And>s acc v r. json_elements n s acc = Some (v, r) \<Longrightarrow>
      \<exists>u ts. s = u @ r \<and> toks u ts \<and> dict_keys v = {}"
    by blast+
  have "\<exists>u ts. s = u @ r \<and> toks u ts \<and> dict_keys v \<subseteq> set ts"
    if "json_value (Suc n) s = Some (v, r)" for s v r
    using json_value_step_toks [OF M E that] .
  moreover have "\<exists>u ts. s = u @ r \<and> toks (CHR 0x22 # u) ts
      \<and> dict_keys v \<subseteq> fst ` set acc \<union> set ts"
    if a: "json_members (Suc n) s acc = Some (v, r)" for s acc v r
  proof -
    from a obtain key r1 where k: "scanstring s = Some (key, r1)"
      by (cases "scanstring s") auto
    from a k obtain c r2 where c: "skip_ws r1 = c # r2"
      by (cases "skip_ws r1") auto
    from a k c have col: "c = CHR '':''" by (auto split: if_splits)
    from a k c col obtain v1 r3 where v1: "json_value n (skip_ws r2) = Some (v1, r3)"
      by (cases "json_value n (skip_ws r2)") auto
    from a k c col v1 obtain d r4 where d: "skip_ws r3 = d # r4"
      by (cases "skip_ws r3") auto
    from scanstring_split [OF k] obtain b where b: "s = b @ r1" "scanstring b = Some (key, [])"
      by blast
    from skip_ws_Cons_split [OF c] obtain w1 where w1: "r1 = w1 @ c # r2" "\<forall>c \<in> set w1. plain c"
      by blast
    from skip_ws_split [of r2] obtain w2 where w2: "r2 = w2 @ skip_ws r2" "\<forall>c \<in> set w2. plain c"
      by blast
    from V [OF v1] obtain u1 ts1 where u1: "skip_ws r2 = u1 @ r3" "toks u1 ts1" by blast
    from skip_ws_Cons_split [OF d] obtain w3 where w3: "r3 = w3 @ d # r4" "\<forall>c \<in> set w3. plain c"
      by blast
    have mid: "\<forall>x \<in> set (w1 @ c # w2). plain x"
      using w1(2) w2(2) col plain_literals by auto
    have pre: "toks (CHR 0x22 # b @ (w1 @ c # w2) @ u1 @ w3) (key # ts1)"
      by (rule toks_string [OF b(2)])
         (rule toks_plain_app [OF mid toks_app_plain [OF u1(2) w3(2)]])
    have s_eq: "s = (b @ (w1 @ c # w2) @ u1 @ w3) @ d # r4"
      using b(1) w1(1) w2(1) u1(1) w3(1) by (metis append.assoc append_Cons)
    show ?thesis
    proof (cases "d = CHR ''}''")
      case True
      with a k c col v1 d have v: "v = PDict (AList.update key v1 acc)" "r = r4" by auto
      from toks_append [OF pre toks_plain_list [of "[d]"]] True plain_literals
      have "toks (CHR 0x22 # (b @ (w1 @ c # w2) @ u1 @ w3) @ [d]) (key # ts1)" by simp
      moreover from s_eq v have "s = ((b @ (w1 @ c # w2) @ u1 @ w3) @ [d]) @ r" by simp
      moreover from v have "dict_keys v \<subseteq> fst ` set acc \<union> set (key # ts1)"
        by (auto simp: update_keys)
      ultimately show ?thesis by blast
    next
      case False
      with a k c col v1 d obtain q r5 where q: "d = CHR '',''" "skip_ws r4 = q # r5"
        "q = CHR 0x22" "json_members n r5 (AList.update key v1 acc) = Some (v, r)"
        by (cases "skip_ws r4") (auto split: if_splits)
      from skip_ws_Cons_split [OF q(2)] obtain w4 where
        w4: "r4 = w4 @ q # r5" "\<forall>c \<in> set w4. plain c" by blast
      from M [OF q(4)] obtain u2 ts2 where u2: "r5 = u2 @ r" "toks (CHR 0x22 # u2) ts2"
        "dict_keys v \<subseteq> fst ` set (AList.update key v1 acc) \<union> set ts2" by blast
      have sep: "\<forall>x \<in> set (d # w4). plain x" using q(1) w4(2) plain_literals by auto
      from toks_append [OF pre toks_plain_app [OF sep u2(2)]]
      have "toks (CHR 0x22 # (b @ (w1 @ c # w2) @ u1 @ w3) @ (d # w4) @ CHR 0x22 # u2)
              ((key # ts1) @ ts2)" by simp
      moreover from s_eq w4(1) q(3) u2(1)
      have "s = ((b @ (w1 @ c # w2) @ u1 @ w3) @ (d # w4) @ CHR 0x22 # u2) @ r" by simp
      moreover from u2(3) have "dict_keys v \<subseteq> fst ` set acc \<union> set ((key # ts1) @ ts2)"
        by (auto simp: update_keys)
      ultimately show ?thesis by blast
    qed
  qed
  moreover have "\<exists>u ts. s = u @ r \<and> toks u ts \<and> dict_keys v = {}"
    if a: "json_elements (Suc n) s acc = Some (v, r)" for s acc v r
  proof -
    from a obtain v1 r1 where v1: "json_value n s = Some (v1, r1)"
      by (cases "json_value n s") auto
    from a v1 obtain d r2 where d: "skip_ws r1 = d # r2"
      by (cases "skip_ws r1") auto
    from V [OF v1] obtain u1 ts1 where u1: "s = u1 @ r1" "toks u1 ts1" by blast
    from skip_ws_Cons_split [OF d] obtain w1 where w1: "r1 = w1 @ d # r2" "\<forall>c \<in> set w1. plain c"
      by blast
    show ?thesis
    proof (cases "d = CHR '']''")
      case True
      with a v1 d have v: "v = PList (acc @ [v1])" "r = r2" by auto
      from toks_app_plain [OF u1(2), of "w1 @ [d]"] w1(2) True plain_literals
      have "toks (u1 @ w1 @ [d]) ts1" by auto
      moreover from u1(1) w1(1) v have "s = (u1 @ w1 @ [d]) @ r" by simp
      ultimately show ?thesis using v by auto
    next
      case False
      with a v1 d have e: "d = CHR '',''"
        "json_elements n (skip_ws r2) (acc @ [v1]) = Some (v, r)"
        by (auto split: if_splits)
      from skip_ws_split [of r2] obtain w2 where w2: "r2 = w2 @ skip_ws r2" "\<forall>c \<in> set w2. plain c"
        by blast
      from E [OF e(2)] obtain u2 ts2 where u2: "skip_ws r2 = u2 @ r" "toks u2 ts2"
        "dict_keys v = {}" by blast
      have sep: "\<forall>x \<in> set (w1 @ d # w2). plain x" using w1(2) w2(2) e(1) plain_literals by auto
      from toks_append [OF u1(2) toks_plain_app [OF sep u2(2)]]
      have "toks (u1 @ (w1 @ d # w2) @ u2) (ts1 @ ts2)" .
      moreover from u1(1) w1(1) w2(1) u2(1) have "s = (u1 @ (w1 @ d # w2) @ u2) @ r"
        by (metis append.assoc append_Cons)
      ultimately show ?thesis using u2(3) by blast
    qed
  qed
  ultimately show ?case by blast
qed

lemma lex_plain_Out: "\<forall>c \<in> set w. plain c \<Longrightarrow> lex Out w = Some Out"
  by (induction w) (auto simp: plain_def)

lemma lex_plain_In: "\<forall>c \<in> set w. c \<noteq> CHR 0x22 \<and> c \<noteq> CHR 0x5C \<Longrightarrow> lex In w = Some In"
  by (induction w) auto

lemma hex_val_plain: "hex_val h = Some n \<Longrightarrow> h \<noteq> CHR 0x22 \<and> h \<noteq> CHR 0x5C"
  by (auto simp: hex_val_def Let_def split: if_splits)

lemma hex4_plain:
  assumes "hex4 h1 h2 h3 h4 = Some n"
  shows "\<forall>c \<in> set [h1, h2, h3, h4]. c \<noteq> CHR 0x22 \<and> c \<noteq> CHR 0x5C"
proof -
  from assms obtain a b c d where "hex_val h1 = Some a" "hex_val h2 = Some b"
    "hex_val h3 = Some c" "hex_val h4 = Some d"
    by (auto simp: hex4_def split: option.splits)
  with hex_val_plain show ?thesis by auto
qed

lemma scanstring_lex_In: "scanstring b = Some (t, []) \<Longrightarrow> lex In b = Some Out"
proof (induction "length b" arbitrary: b t rule: less_induct)
  case less
  from less.prems obtain c cs where s: "b = c # cs" by (cases b) auto
  have IH: "lex In b' = Some Out" if "scanstring b' = Some (t', [])" "length b' < length b"
    for b' t'
    using less.hyps [OF that(2) that(1)] .
  show ?case
  proof (cases "c = CHR 0x22")
    case True
    with less.prems s show ?thesis by simp
  next
    case nq: False
    show ?thesis
    proof (cases "c = CHR 0x5C")
      case False
      with nq less.prems s obtain t' where "scanstring cs = Some (t', [])"
        by (auto split: if_splits option.splits)
      from IH [OF this] s nq False show ?thesis by simp
    next
      case bs: True
      from less.prems nq bs s obtain e es where cs: "cs = e # es"
        by (cases cs) auto
      show ?thesis
      proof (cases "e = CHR ''u''")
        case False
        with less.prems nq bs cs s obtain x t' where x: "unescape e = Some x"
          "scanstring es = Some (t', [])"
          by (auto split: option.splits)
        from IH [OF x(2)] s cs bs x(1) show ?thesis by simp
      next
        case u: True
        from less.prems nq bs cs u s obtain h1 h2 h3 h4 r0 where es: "es = h1 # h2 # h3 # h4 # r0"
          by (auto split: list.splits)
        with less.prems nq bs cs u s obtain n t' where n: "hex4 h1 h2 h3 h4 = Some n"
          "scanstring r0 = Some (t', [])"
          by (auto split: option.splits if_splits)
        from IH [OF n(2)] s cs es have r0: "lex In r0 = Some Out" by simp
        from lex_plain_In [OF hex4_plain [OF n(1)]] have "lex In [h1, h2, h3, h4] = Some In" .
        with r0 have "lex In ([h1, h2, h3, h4] @ r0) = Some Out"
          by (simp only: lex_append option.case)
        with s cs es bs u show ?thesis by simp
      qed
    qed
  qed
qed

lemma toks_lex_Out: "toks u ts \<Longrightarrow> lex Out u = Some Out"
proof (induction rule: toks.induct)
  case toks_Nil
  show ?case by simp
next
  case (toks_plain c u ts)
  then show ?case by (simp add: plain_def)
next
  case (toks_string b t u ts)
  from scanstring_lex_In [OF toks_string(1)] toks_string(3) show ?case
    by (simp add: lex_append)
qed

lemma scanstring_lex_Out:
  "scanstring b = Some (t, []) \<Longrightarrow> lex Out b = Some st \<Longrightarrow> st = In \<and> CHR ''o'' \<notin> set t"
proof (induction b arbitrary: t)
  case Nil
  then show ?case by simp
next
  case (Cons c cs)
  show ?case
  proof (cases "c = CHR 0x22")
    case True
    with Cons.prems show ?thesis by auto
  next
    case nq: False
    with Cons.prems(2) have oc: "out_char c" and l: "lex Out cs = Some st"
      by (auto split: if_splits)
    from out_char_not_special [OF oc] have ns: "c \<noteq> CHR 0x5C" "c \<noteq> CHR ''o''" by simp_all
    with nq Cons.prems(1) obtain t' where t': "scanstring cs = Some (t', [])" "t = c # t'"
      by (auto split: if_splits option.splits)
    from Cons.IH [OF t'(1) l] t'(2) ns show ?thesis by simp
  qed
qed

lemma toks_lex_In:
  "toks u ts \<Longrightarrow> lex In u = Some st \<Longrightarrow> st = In \<and> (\<forall>t \<in> set ts. CHR ''o'' \<notin> set t)"
proof (induction arbitrary: st rule: toks.induct)
  case toks_Nil
  then show ?case by simp
next
  case (toks_plain c u ts)
  from plain_not_special [OF toks_plain(1)] toks_plain(4) have "lex In u = Some st" by simp
  from toks_plain(3) [OF this] show ?case .
next
  case (toks_string b t u ts)
  from toks_string(4) have "lex Out (b @ u) = Some st" by simp
  then obtain st' where st': "lex Out b = Some st'" "lex st' u = Some st"
    by (auto simp: lex_append split: option.splits)
  from scanstring_lex_Out [OF toks_string(1) st'(1)] have b: "st' = In" "CHR ''o'' \<notin> set t"
    by simp_all
  from toks_string(3) [of st] st'(2) b show ?case by simp
qed

lemma json_loads_toks:
  assumes "json_loads s = Some v"
  shows "\<exists>ts. toks s ts \<and> dict_keys v \<subseteq> set ts"
proof -
  from assms obtain r where v: "json_value (Suc (2 * length s)) (skip_ws s) = Some (v, r)"
    and r: "skip_ws r = []"
    by (auto simp: json_loads_def split: option.splits if_splits)
  from json_toks [of "Suc (2 * length s)"] v obtain u ts where
    u: "skip_ws s = u @ r" "toks u ts" "dict_keys v \<subseteq> set ts" by blast
  from skip_ws_split [of s] obtain w0 where w0: "s = w0 @ skip_ws s" "\<forall>c \<in> set w0. plain c"
    by blast
  from skip_ws_split [of r] r have pr: "\<forall>c \<in> set r. plain c" by auto
  from toks_plain_app [OF w0(2) toks_app_plain [OF u(2) pr]] w0(1) u(1)
  have "toks s ts" by simp
  with u(3) show ?thesis by blast
qed

lemma strip_split:
  "\<exists>l t. s = l @ strip s @ t \<and> (\<forall>c \<in> set l. isspace c) \<and> (\<forall>c \<in> set t. isspace c)"
proof -
  let ?m = "dropWhile isspace s"
  let ?t = "takeWhile isspace (rev ?m)"
  have 1: "s = takeWhile isspace s @ ?m" by simp
  have "rev (?t @ dropWhile isspace (rev ?m)) = ?m"
    by (simp only: takeWhile_dropWhile_id rev_rev_ident)
  then have 2: "?m = strip s @ rev ?t"
    by (simp only: rev_append strip_def)
  have 3: "\<forall>c \<in> set (takeWhile isspace s). isspace c" by (auto dest: set_takeWhileD)
  have 4: "\<forall>c \<in> set (rev ?t). isspace c"
    by (auto dest: set_takeWhileD)
  from 2 have "takeWhile isspace s @ ?m = takeWhile isspace s @ strip s @ rev ?t"
    by (rule arg_cong)
  with 1 have "s = takeWhile isspace s @ strip s @ rev ?t"
    by (rule trans)
  with 3 4 show ?thesis by blast
qed

lemma json_loads_strip_lex:
  assumes "json_loads (strip raw) = Some v"
  shows "lex Out raw = Some Out"
proof -
  from json_loads_toks [OF assms] obtain ts where ts: "toks (strip raw) ts" by blast
  from strip_split [of raw] obtain l t where
    lt: "raw = l @ strip raw @ t" "\<forall>c \<in> set l. isspace c" "\<forall>c \<in> set t. isspace c" by blast
  from lt(2,3) isspace_plain have pl: "\<forall>c \<in> set l. plain c" and pt: "\<forall>c \<in> set t. plain c"
    by blast+
  from toks_plain_app [OF pl toks_app_plain [OF ts pt]] have "toks (l @ strip raw @ t) ts" .
  from toks_lex_Out [OF this] lt(1) show ?thesis by simp
qed

lemma json_loads_lex_In_no_request:
  assumes "json_loads g = Some v" and "lex In g = Some st"
  shows "tool_request v = None"
proof -
  from json_loads_toks [OF assms(1)] obtain ts where ts: "toks g ts" "dict_keys v \<subseteq> set ts"
    by blast
  from toks_lex_In [OF ts(1) assms(2)] have "\<forall>t \<in> set ts. CHR ''o'' \<notin> set t" by simp
  then have "''tool'' \<notin> set ts" by auto
  with ts(2) have "''tool'' \<notin> dict_keys v" by blast
  then show ?thesis
    by (cases v) (auto simp: tool_request_def map_of_eq_None_iff)
qed

lemma lazy_body_split:
  "lazy_body acc s = Some g \<Longrightarrow> \<exists>b q. s = b @ q \<and> g = CHR ''{'' # rev acc @ b"
proof (induction s arbitrary: acc)
  case Nil
  then show ?case by simp
next
  case (Cons c cs)
  show ?case
  proof (cases "c = CHR ''}'' \<and> closes cs")
    case True
    with Cons.prems have "g = CHR ''{'' # rev acc @ [c]" by simp
    then have "c # cs = [c] @ cs \<and> g = CHR ''{'' # rev acc @ [c]" by simp
    then show ?thesis by blast
  next
    case False
    with Cons.prems have "lazy_body (c # acc) cs = Some g" by auto
    from Cons.IH [OF this] obtain b q where "cs = b @ q" "g = CHR ''{'' # rev (c # acc) @ b"
      by blast
    then have "c # cs = (c # b) @ q \<and> g = CHR ''{'' # rev acc @ (c # b)" by simp
    then show ?thesis by blast
  qed
qed

lemma after_fence_split:
  assumes "after_fence s = Some g"
  shows "\<exists>w q. s = w @ g @ q \<and> (\<forall>c \<in> set w. isspace c)"
proof -
  from assms obtain cs where d: "dropWhile isspace s = CHR ''{'' # cs"
    and l: "lazy_body [] cs = Some g"
    by (auto simp: after_fence_def split: list.splits if_splits)
  from lazy_body_split [OF l] obtain b q where b: "cs = b @ q" "g = CHR ''{'' # b" by auto
  have "s = takeWhile isspace s @ dropWhile isspace s" by simp
  with d b have "s = takeWhile isspace s @ g @ q" by simp
  moreover have "\<forall>c \<in> set (takeWhile isspace s). isspace c" by (auto dest: set_takeWhileD)
  ultimately show ?thesis by blast
qed

lemma match_here_split:
  assumes "match_here s = Some g"
  shows "\<exists>m q. s = ''```'' @ m @ g @ q \<and> (\<forall>c \<in> set m. c \<noteq> CHR 0x22 \<and> c \<noteq> CHR 0x5C)"
proof -
  define s1 where "s1 = drop 3 s"
  define s2 where "s2 = drop 4 s1"
  from assms have f: "take 3 s = ''```''"
    unfolding match_here_def by (cases "take 3 s = ''```''") simp_all
  have "take 3 s @ drop 3 s = s" by (rule append_take_drop_id)
  then have s: "''```'' @ s1 = s" unfolding f s1_def .
  from assms f have b: "(if take 4 s1 = ''json'' then
              (case after_fence s2 of Some g \<Rightarrow> Some g | None \<Rightarrow> after_fence s1)
            else after_fence s1) = Some g"
    unfolding match_here_def Let_def s1_def s2_def by simp
  have sp: "\<forall>c \<in> set w. c \<noteq> CHR 0x22 \<and> c \<noteq> CHR 0x5C" if "\<forall>c \<in> set w. isspace c" for w
    using that isspace_not_special by blast
  have direct: ?thesis if a: "after_fence s1 = Some g"
  proof -
    from after_fence_split [OF a] obtain w q where
      w: "s1 = w @ g @ q" "\<forall>c \<in> set w. isspace c" by blast
    from s have "s = ''```'' @ w @ g @ q" unfolding w(1) by (rule sym)
    with sp [OF w(2)] show ?thesis by blast
  qed
  show ?thesis
  proof (cases "take 4 s1 = ''json''")
    case False
    with b have "after_fence s1 = Some g" by simp
    then show ?thesis by (rule direct)
  next
    case True
    show ?thesis
    proof (cases "after_fence s2")
      case None
      with b True have "after_fence s1 = Some g" by simp
      then show ?thesis by (rule direct)
    next
      case (Some g')
      with b True have a: "after_fence s2 = Some g" by simp
      from after_fence_split [OF a] obtain w q where
        w: "s2 = w @ g @ q" "\<forall>c \<in> set w. isspace c" by blast
      have "take 4 s1 @ drop 4 s1 = s1" by (rule append_take_drop_id)
      then have "''json'' @ w @ g @ q = s1" unfolding True s2_def [symmetric] w(1) .
      with s have "''```'' @ (''json'' @ w @ g @ q) = s" by simp
      then have "s = ''```'' @ (''json'' @ w) @ g @ q" by simp
      moreover from sp [OF w(2)]
      have "\<forall>c \<in> set (''json'' @ w). c \<noteq> CHR 0x22 \<and> c \<noteq> CHR 0x5C" by simp
      ultimately show ?thesis by blast
    qed
  qed
qed

lemma re_search_split:
  "re_search s = Some g \<Longrightarrow>
     \<exists>a m q. s = a @ ''```'' @ m @ g @ q \<and> (\<forall>c \<in> set m. c \<noteq> CHR 0x22 \<and> c \<noteq> CHR 0x5C)"
proof (induction s)
  case Nil
  then show ?case by simp
next
  case (Cons c cs)
  show ?case
  proof (cases "match_here (c # cs)")
    case (Some g')
    with Cons.prems have "match_here (c # cs) = Some g" by simp
    from match_here_split [OF this] obtain m q where
      mq: "c # cs = ''```'' @ m @ g @ q" "\<forall>c \<in> set m. c \<noteq> CHR 0x22 \<and> c \<noteq> CHR 0x5C"
      by blast
    from mq(1) have "c # cs = [] @ ''```'' @ m @ g @ q" by (simp only: append_Nil)
    with mq(2) show ?thesis by blast
  next
    case None
    with Cons.prems have "re_search cs = Some g" by simp
    from Cons.IH [OF this] obtain a m q where
      amq: "cs = a @ ''```'' @ m @ g @ q" "\<forall>c \<in> set m. c \<noteq> CHR 0x22 \<and> c \<noteq> CHR 0x5C"
      by blast
    have "c # cs = (c # a) @ ''```'' @ m @ g @ q"
      unfolding amq(1) by (simp only: append_Cons)
    with amq(2) show ?thesis by blast
  qed
qed

lemma lex_step_backquote:
  "lex_step Out CHR ''`'' = None" "lex_step In CHR ''`'' = Some In" "lex_step Esc CHR ''`'' = None"
  by (simp_all add: out_char_def isspace_def is_digit_def unescape_def)

lemma lex_fence: "lex st ''```'' = Some st' \<Longrightarrow> st' = In"
  by (cases st) (simp_all add: lex_step_backquote del: lex_step.simps)

lemma lex_append_Some:
  "lex st (a @ b) = Some st' \<Longrightarrow> \<exists>s1. lex st a = Some s1 \<and> lex s1 b = Some st'"
  by (cases "lex st a") (simp_all add: lex_append)

lemma strict_parse_excludes_fenced:
  assumes "json_loads (strip raw) = Some v"
  shows "parse_fenced raw = None"
proof (cases "re_search raw")
  case None
  then show ?thesis by (simp add: parse_fenced_def)
next
  case (Some g)
  from re_search_split [OF Some] obtain a m q where
    raw: "raw = a @ ''```'' @ m @ g @ q" and m: "\<forall>c \<in> set m. c \<noteq> CHR 0x22 \<and> c \<noteq> CHR 0x5C"
    by blast
  from json_loads_strip_lex [OF assms] raw have "lex Out (a @ ''```'' @ m @ g @ q) = Some Out"
    by simp
  from lex_append_Some [OF this] obtain s1 where
    s1: "lex Out a = Some s1" "lex s1 (''```'' @ m @ g @ q) = Some Out" by blast
  from lex_append_Some [OF s1(2)] obtain s2 where
    s2: "lex s1 ''```'' = Some s2" "lex s2 (m @ g @ q) = Some Out" by blast
  from lex_append_Some [OF s2(2)] obtain s3 where
    s3: "lex s2 m = Some s3" "lex s3 (g @ q) = Some Out" by blast
  from lex_append_Some [OF s3(2)] obtain s4 where
    s4: "lex s3 g = Some s4" by blast
  note st = s1(1) s2(1) s3(1) s4
  from lex_fence [OF st(2)] have "s2 = In" .
  with st(3) lex_plain_In [OF m] have "s3 = In" by simp
  with st(4) have g: "lex In g = Some s4" by simp
  show ?thesis
  proof (cases "json_loads g")
    case None
    with Some show ?thesis by (simp add: parse_fenced_def)
  next
    case v': (Some v')
    from json_loads_lex_In_no_request [OF v' g] Some v' show ?thesis
      by (simp add: parse_fenced_def)
  qed
qed

lemma search_simps:
  "model (search stop) = scripted"
  "tools (search stop) = [(''fact_generator'', fact_generator)]"
  "stop_conditions (search stop) = stop"
  by (simp_all add: search_def Agent_init_def fact_generator_def)

text \<open>
  What the parser does with an object that has the key \<^verbatim>\<open>"tools"\<close>: it tests for the keys
  \<^verbatim>\<open>"tool"\<close> and \<^verbatim>\<open>"args"\<close> only, so without one of them the response is no tool call, and
  the agent returns it as its answer.
\<close>

lemma tools_only_response:
  assumes "json_loads (strip response) = Some (PDict kvs)"
    and "map_of kvs ''tools'' = Some (PList calls)"
    and "map_of kvs ''tool'' = None \<or> map_of kvs ''args'' = None"
  shows "parse_tool_call response = None
       \<and> (model A prompt w = (Inr response, w1) \<longrightarrow>
            agent_loop (Suc fuel) A step0 prompt mem ps invs w =
              Some \<lparr>answer = Inr response,
                    temporary_memory = mem @ [(''assistant'', Text response)],
                    prompts = ps @ [prompt], tool_invocations = invs, world_after = w1\<rparr>)"
proof -
  from assms(1,3) have "parse_plain response = None"
    by (auto simp: parse_plain_def tool_request_def)
  with strict_parse_excludes_fenced [OF assms(1)] have "parse_tool_call response = None"
    by (simp add: parse_tool_call_def)
  then show ?thesis by simp
qed

lemma parallel_json_loads:
  "json_loads (strip parallel_json) = Some (PDict [(''tools'', PList
       [PDict [(''tool'', PStr ''tool_a''), (''args'', PDict [(''x'', PStr ''test1'')])],
        PDict [(''tool'', PStr ''tool_b''), (''args'', PDict [(''y'', PStr ''test2'')])],
        PDict [(''tool'', PStr ''tool_c''), (''args'', PDict [(''z'', PStr ''test3'')])]])])"
  by code_simp

text \<open>
  C3. A response that is a JSON object with the key \<^verbatim>\<open>"tools"\<close> holding a list of
  \<^verbatim>\<open>{tool, args}\<close> objects is to be recognized as a parallel request, and
  examples/parallel\_tools\_direct\_test.py expects \<^verbatim>\<open>_parse_tool_call\<close> to return a dictionary
  with the key \<^verbatim>\<open>"tools"\<close> for the response it builds. The code does not do so: on that
  very response the parser returns \<^verbatim>\<open>None\<close>, and an agent whose model gives it returns the
  response as its final answer, with no tool invoked.
\<close>

theorem parallel_request_not_recognized:
  "parse_tool_call parallel_json = None
   \<and> agent_loop (Suc 0) (search (\<lambda>step mem. 15 \<le> step)) 0 ''p'' [] [] [] [parallel_json] =
       Some \<lparr>answer = Inr parallel_json,
             temporary_memory = [(''assistant'', Text parallel_json)],
             prompts = [''p''], tool_invocations = [], world_after = []\<rparr>"
proof -
  have m: "model (search (\<lambda>step mem. 15 \<le> step)) ''p'' [parallel_json] = (Inr parallel_json, [])"
    by (simp add: search_def Agent_init_def scripted_def)
  from tools_only_response [OF parallel_json_loads,
      of _ "search (\<lambda>step mem. 15 \<le> step)" "''p''" "[parallel_json]" "[]" 0 0 "[]" "[]" "[]"] m
  show ?thesis by simp
qed

text \<open>
  C4. The parser has two stages. The first decodes the whole stripped response as JSON;
  when that succeeds, the result is decided there: an object with the keys \<^verbatim>\<open>"tool"\<close> and
  \<^verbatim>\<open>"args"\<close> is the request, and any other value is no tool call (the code does search for
  a fence in that case too, and never finds a request). Only when the response is no JSON
  document does a fenced block count: the group of the first match of the pattern is
  decoded and tested in the same way, and no later block is looked at. A response
  without an opening brace is no tool call. The single-call example of the specification
  parses as a request.
\<close>

theorem parse_tool_call_two_stage:
  \<open>parse_tool_call raw =
     (case json_loads (strip raw) of
        Some v \<Rightarrow> tool_request v
      | None \<Rightarrow>
          (case re_search raw of
             None \<Rightarrow> None
           | Some json_content \<Rightarrow>
               (case json_loads json_content of None \<Rightarrow> None | Some v \<Rightarrow> tool_request v)))
   \<and> (map_of kvs ''tool'' = Some t \<and> map_of kvs ''args'' = Some a
        \<longrightarrow> tool_request (PDict kvs) = Some kvs)
   \<and> (CHR ''{'' \<notin> set raw \<longrightarrow> parse_tool_call raw = None)
   \<and> parse_tool_call ''{"tool":"x","args":{"a":1}}'' =
       Some [(''tool'', PStr ''x''), (''args'', PDict [(''a'', PInt 1)])]\<close>
proof -
  have two: "parse_tool_call raw =
     (case json_loads (strip raw) of
        Some v \<Rightarrow> tool_request v
      | None \<Rightarrow>
          (case re_search raw of
             None \<Rightarrow> None
           | Some json_content \<Rightarrow>
               (case json_loads json_content of None \<Rightarrow> None | Some v \<Rightarrow> tool_request v)))"
  proof (cases "json_loads (strip raw)")
    case None
    then show ?thesis
      by (simp add: parse_tool_call_def parse_plain_def parse_fenced_def)
  next
    case (Some v)
    from strict_parse_excludes_fenced [OF Some] Some show ?thesis
      by (cases "tool_request v") (simp_all add: parse_tool_call_def parse_plain_def)
  qed
  have ex: \<open>parse_tool_call ''{"tool":"x","args":{"a":1}}'' =
       Some [(''tool'', PStr ''x''), (''args'', PDict [(''a'', PInt 1)])]\<close>
    by code_simp
  have nb: "CHR ''{'' \<notin> set raw \<longrightarrow> parse_tool_call raw = None"
    using no_brace_no_tool_call by blast
  have tr: "map_of kvs ''tool'' = Some t \<and> map_of kvs ''args'' = Some a
        \<longrightarrow> tool_request (PDict kvs) = Some kvs"
    by (simp add: tool_request_def)
  from two tr nb ex show ?thesis by (intro conjI)
qed

lemma single_json_loads:
  \<open>json_loads (strip single_json) =
      Some (PDict [(''tool'', PStr ''fact_generator''), (''args'', PDict [(''text'', PStr ''Mars'')])])\<close>
  by code_simp

lemma fenced_reply_plain: "json_loads (strip fenced_reply) = None"
  by code_simp

lemma fenced_reply_search:
  \<open>re_search fenced_reply = Some ''{"tool": "fact_generator", "args": {"text": "Mars"}}''\<close>
  by code_simp

lemma fenced_reply_loads:
  \<open>json_loads ''{"tool": "fact_generator", "args": {"text": "Mars"}}'' =
     Some (PDict [(''tool'', PStr ''fact_generator''), (''args'', PDict [(''text'', PStr ''Mars'')])])\<close>
  by code_simp

lemma two_blocks_plain: "json_loads (strip two_blocks) = None"
  by code_simp

lemma two_blocks_search: \<open>re_search two_blocks = Some ''{"note": 1}''\<close>
  by code_simp

lemma two_blocks_loads: \<open>json_loads ''{"note": 1}'' = Some (PDict [(''note'', PInt 1)])\<close>
  by code_simp

theorem parse_tool_call_two_stage_witness:
  \<open>parse_tool_call single_json =
      Some [(''tool'', PStr ''fact_generator''), (''args'', PDict [(''text'', PStr ''Mars'')])]
   \<and> parse_tool_call fenced_reply =
      Some [(''tool'', PStr ''fact_generator''), (''args'', PDict [(''text'', PStr ''Mars'')])]
   \<and> parse_tool_call two_blocks = None
   \<and> parse_tool_call ''The red planet is Mars.'' = None\<close>
proof -
  have 1: \<open>parse_tool_call single_json =
      Some [(''tool'', PStr ''fact_generator''), (''args'', PDict [(''text'', PStr ''Mars'')])]\<close>
    using parse_tool_call_two_stage [of single_json
        \<open>[(''tool'', PStr ''fact_generator''), (''args'', PDict [(''text'', PStr ''Mars'')])]\<close>
        \<open>PStr ''fact_generator''\<close> \<open>PDict [(''text'', PStr ''Mars'')]\<close>] single_json_loads
    by simp
  have 2: \<open>parse_tool_call fenced_reply =
      Some [(''tool'', PStr ''fact_generator''), (''args'', PDict [(''text'', PStr ''Mars'')])]\<close>
    using parse_tool_call_two_stage [of fenced_reply
        \<open>[(''tool'', PStr ''fact_generator''), (''args'', PDict [(''text'', PStr ''Mars'')])]\<close>
        \<open>PStr ''fact_generator''\<close> \<open>PDict [(''text'', PStr ''Mars'')]\<close>]
      fenced_reply_plain fenced_reply_search fenced_reply_loads
    by simp
  have 3: "parse_tool_call two_blocks = None"
    using parse_tool_call_two_stage [of two_blocks] two_blocks_plain two_blocks_search
      two_blocks_loads
    by (simp add: tool_request_def)
  have 4: \<open>parse_tool_call ''The red planet is Mars.'' = None\<close>
    using parse_tool_call_two_stage
      [of \<open>''The red planet is Mars.''\<close>, THEN conjunct2, THEN conjunct2, THEN conjunct1]
    by simp
  from 1 2 3 4 show ?thesis by simp
qed

section \<open>Properties of the agent loop and of the pool loop\<close>

lemma pool_loop_reaches_ceiling:
  assumes R: "\<forall>s c l. \<exists>route n a s'. router pool s c l = (Inr (Some route), s')
                \<and> next_agent_name route = Some n \<and> map_of (agents_dict pool) n = Some a"
    and A: "\<forall>n a inp w. map_of (agents_dict pool) n = Some a \<longrightarrow>
                (\<exists>out w'. run a inp w = Some (Inr out, w'))"
  shows "\<exists>out. pool_loop pool c l cur s runs w = Some out \<and> (\<exists>x. returned out = Inr x)
           \<and> length (agent_runs out) = length runs + nat (max_iter pool - c)"
proof (induction "nat (max_iter pool - c)" arbitrary: c l cur s runs w)
  case 0
  then have "\<not> c < max_iter pool" by simp
  then show ?case by (subst pool_loop.simps) simp
next
  case (Suc k)
  then have lt: "c < max_iter pool" by linarith
  from R obtain route n a s1 where
    r: "router pool s c l = (Inr (Some route), s1)" "next_agent_name route = Some n"
       "map_of (agents_dict pool) n = Some a"
    by blast
  from A r(3) obtain out w1 where a: "run a cur w = Some (Inr out, w1)"
    by blast
  from Suc(2) have k: "k = nat (max_iter pool - (c + 1))" by linarith
  have step: "pool_loop pool c l cur s runs w =
      pool_loop pool (c + 1) (Some \<lparr>agent = member.name a, output = out\<rparr>) out
        (add_message s1 ''assistant'' out (Some (member.name a)))
        (runs @ [(member.name a, cur)]) w1"
    using lt r a by (subst pool_loop.simps) simp
  from Suc(1) [OF k, of "Some \<lparr>agent = member.name a, output = out\<rparr>" out
      "add_message s1 ''assistant'' out (Some (member.name a))" "runs @ [(member.name a, cur)]" w1]
  obtain o' where o': "pool_loop pool (c + 1) (Some \<lparr>agent = member.name a, output = out\<rparr>) out
        (add_message s1 ''assistant'' out (Some (member.name a)))
        (runs @ [(member.name a, cur)]) w1 = Some o'" "\<exists>x. returned o' = Inr x"
     "length (agent_runs o') = length (runs @ [(member.name a, cur)]) + nat (max_iter pool - (c + 1))"
    by blast
  from lt have "Suc (nat (max_iter pool - (c + 1))) = nat (max_iter pool - c)" by linarith
  with o' show ?case
    unfolding step by auto
qed

lemma pool_loop_history_extends:
  assumes R: "\<forall>s c l. \<exists>ext. history (snd (router pool s c l)) = history s @ ext"
  shows "pool_loop pool c l cur s runs w = Some out \<Longrightarrow>
           \<exists>ext. history (final_state out) = history s @ ext"
proof (induction "nat (max_iter pool - c)" arbitrary: c l cur s runs w)
  case 0
  then have "\<not> c < max_iter pool" by simp
  with 0(2) show ?case by (subst (asm) pool_loop.simps) auto
next
  case (Suc k)
  then have lt: "c < max_iter pool" by linarith
  from Suc(2) have k: "k = nat (max_iter pool - (c + 1))" by linarith
  obtain x s1 where r: "router pool s c l = (x, s1)" by (cases "router pool s c l")
  from R obtain ext where "history (snd (router pool s c l)) = history s @ ext" by blast
  with r have ext: "history s1 = history s @ ext" by simp
  from Suc(3) lt r have
    "(\<exists>ext'. history (final_state out) = history s1 @ ext')"
    apply (subst (asm) pool_loop.simps)
    apply (auto split: sum.splits option.splits prod.splits simp: add_message_def dest!: Suc(1) [OF k])
    done
  with ext show ?case by auto
qed

lemma agent_pool_simps:
  "agents_dict (agent_pool r) =
     [(''MathAgent'', echo ''MathAgent''), (''WriterAgent'', echo ''WriterAgent'')]"
  "router (agent_pool r) = r"
  "max_iter (agent_pool r) = 3"
  "state (agent_pool r) = \<lparr>kv = [], history = []\<rparr>"
  by (simp_all add: agent_pool_def Pool_init_def echo_def State_init_def)

lemma agent_pool_router:
  "\<forall>s c l. \<exists>route n a s'. router (agent_pool (always ''MathAgent'')) s c l = (Inr (Some route), s')
      \<and> next_agent_name route = Some n \<and> map_of (agents_dict (agent_pool (always ''MathAgent''))) n = Some a"
  by (simp add: agent_pool_simps always_def)

lemma agent_pool_agents:
  "\<forall>n a inp w. map_of (agents_dict (agent_pool r)) n = Some a \<longrightarrow>
      (\<exists>out w'. run a inp w = Some (Inr out, w'))"
  by (auto simp: agent_pool_simps echo_def split: if_splits)

text \<open>
  C5. In any iteration of the agent loop, a single-tool request whose tool name is not a
  key of the registry ends the run with the \<^verbatim>\<open>ValueError\<close> of line 76: no callable is invoked,
  the model is not called again, and the memory ends with the response. In any iteration
  of the pool loop, a router result that names an agent outside the registry ends the run
  with the \<^verbatim>\<open>ValueError\<close> of line 39: no agent is run in that iteration and nothing is added
  to the history.
\<close>

theorem unknown_tool_or_agent_is_fatal:
  "(model A prompt w = (Inr response, w1) \<and> parse_tool_call response = Some tool_call
      \<and> map_of tool_call ''tool'' = Some (PStr n) \<and> map_of (tools A) n = None
     \<longrightarrow> agent_loop (Suc fuel) A step0 prompt mem ps invs w =
           Some \<lparr>answer = Inl (UnknownTool (PStr n)),
                 temporary_memory = mem @ [(''assistant'', Text response)],
                 prompts = ps @ [prompt], tool_invocations = invs, world_after = w1\<rparr>)
   \<and> (call_count < max_iter pool \<and> router pool s call_count l = (Inr (Some route), s1)
      \<and> next_agent_name route = Some m \<and> map_of (agents_dict pool) m = None
     \<longrightarrow> pool_loop pool call_count l current_input s runs v =
           Some \<lparr>returned = Inl (UnknownAgent m), final_state = s1, agent_runs = runs,
                 final_world = v\<rparr>)"
proof -
  have "agent_loop (Suc fuel) A step0 prompt mem ps invs w =
           Some \<lparr>answer = Inl (UnknownTool (PStr n)),
                 temporary_memory = mem @ [(''assistant'', Text response)],
                 prompts = ps @ [prompt], tool_invocations = invs, world_after = w1\<rparr>"
    if "model A prompt w = (Inr response, w1)" "parse_tool_call response = Some tool_call"
      "map_of tool_call ''tool'' = Some (PStr n)" "map_of (tools A) n = None"
  proof -
    from parse_tool_call_keys [OF that(2)] obtain b where "map_of tool_call ''args'' = Some b"
      by blast
    with that show ?thesis
      by (simp add: find_tool_def)
  qed
  moreover have "pool_loop pool call_count l current_input s runs v =
           Some \<lparr>returned = Inl (UnknownAgent m), final_state = s1, agent_runs = runs,
                 final_world = v\<rparr>"
    if "call_count < max_iter pool" "router pool s call_count l = (Inr (Some route), s1)"
      "next_agent_name route = Some m" "map_of (agents_dict pool) m = None"
    using that by (subst pool_loop.simps) simp
  ultimately show ?thesis by blast
qed

theorem unknown_tool_or_agent_is_fatal_witness:
  "agent_loop (Suc 0) (search (\<lambda>step mem. 15 \<le> step)) 0 ''p'' [] [] [] [unknown_json, ''done''] =
     Some \<lparr>answer = Inl (UnknownTool (PStr ''calculator'')),
           temporary_memory = [(''assistant'', Text unknown_json)],
           prompts = [''p''], tool_invocations = [], world_after = [''done'']\<rparr>
   \<and> pool_loop (agent_pool (always ''ghost'')) 0 None ''hi'' \<lparr>kv = [], history = []\<rparr> [] () =
     Some \<lparr>returned = Inl (UnknownAgent ''ghost''), final_state = \<lparr>kv = [], history = []\<rparr>,
           agent_runs = [], final_world = ()\<rparr>"
proof -
  have p: "parse_tool_call unknown_json =
      Some [(''tool'', PStr ''calculator''), (''args'', PDict [(''expression'', PStr ''2+2'')])]"
    by code_simp
  have a: "model (search (\<lambda>step mem. 15 \<le> step)) ''p'' [unknown_json, ''done'']
             = (Inr unknown_json, [''done''])"
    by (simp add: search_simps scripted_def)
  have r: "router (agent_pool (always ''ghost'')) \<lparr>kv = [], history = []\<rparr> 0 None =
             (Inr (Some \<lparr>next_agent_name = Some ''ghost''\<rparr>), \<lparr>kv = [], history = []\<rparr>)"
    by (simp add: agent_pool_simps always_def)
  from unknown_tool_or_agent_is_fatal [of "search (\<lambda>step mem. 15 \<le> step)" "''p''"
      "[unknown_json, ''done'']" unknown_json "[''done'']"
      "[(''tool'', PStr ''calculator''), (''args'', PDict [(''expression'', PStr ''2+2'')])]"
      "''calculator''" 0 0 "[]" "[]" "[]"
      0 "agent_pool (always ''ghost'')" "\<lparr>kv = [], history = []\<rparr>" None "\<lparr>next_agent_name = Some ''ghost''\<rparr>"
      "\<lparr>kv = [], history = []\<rparr>" "''ghost''" "''hi''" "[]" "()"]
    p a r
  show ?thesis
    by (simp add: search_simps agent_pool_simps)
qed



text \<open>
  C8. In any iteration of the agent loop in which the response is a request for a
  registered tool and the tool returns, the stop condition is evaluated once, after the
  tool entry was appended to the memory, on that memory and on the value of \<^verbatim>\<open>step - 1\<close>: the
  number of iterations completed before this one. When it holds, the run returns the text
  \<^verbatim>\<open>Stopped after {step} steps due to stop condition.\<close> without another call of the model;
  this text is never the response of the model. When it does not hold, the loop goes on
  with the next prompt.
\<close>

theorem stop_condition_ends_run:
  assumes "model A prompt w = (Inr response, w1)"
    and "parse_tool_call response = Some tool_call"
    and "map_of tool_call ''tool'' = Some tool_name"
    and "map_of tool_call ''args'' = Some args"
    and "find_tool A tool_name = Inr tool"
    and "result (Tool_run tool args w1) = Inr tool_output"
  shows "(stop_conditions A step0
            (mem @ [(''assistant'', Text response), (''tool'', ToolRecord tool_name args tool_output)])
          \<longrightarrow> agent_loop (Suc fuel) A step0 prompt mem ps invs w =
                Some \<lparr>answer = Inr (stopped_message (step0 + 1)),
                      temporary_memory = mem @ [(''assistant'', Text response),
                                                (''tool'', ToolRecord tool_name args tool_output)],
                      prompts = ps @ [prompt],
                      tool_invocations =
                        invs @ map (Pair (Tool.name tool)) (invocations (Tool_run tool args w1)),
                      world_after = world (Tool_run tool args w1)\<rparr>
              \<and> stopped_message (step0 + 1) \<noteq> response)
       \<and> (\<not> stop_conditions A step0
            (mem @ [(''assistant'', Text response), (''tool'', ToolRecord tool_name args tool_output)])
          \<longrightarrow> agent_loop (Suc fuel) A step0 prompt mem ps invs w =
                agent_loop fuel A (step0 + 1)
                  (followup_prompt A
                     (mem @ [(''assistant'', Text response),
                             (''tool'', ToolRecord tool_name args tool_output)]))
                  (mem @ [(''assistant'', Text response),
                          (''tool'', ToolRecord tool_name args tool_output)])
                  (ps @ [prompt])
                  (invs @ map (Pair (Tool.name tool)) (invocations (Tool_run tool args w1)))
                  (world (Tool_run tool args w1)))"
proof -
  have "stopped_message (step0 + 1) \<noteq> response"
  proof
    assume "stopped_message (step0 + 1) = response"
    with stopped_message_no_brace [of "step0 + 1"] have "CHR ''{'' \<notin> set response" by simp
    from no_brace_no_tool_call [OF this] assms(2) show False by simp
  qed
  with assms show ?thesis
    by (simp add: Let_def)
qed

theorem stop_condition_ends_run_witness:
  "Agent_run (Suc 0) (search (\<lambda>step mem. 0 \<le> step)) ''Generate facts'' [single_json, ''done''] =
     Some \<lparr>answer = Inr ''Stopped after 1 steps due to stop condition.'',
           temporary_memory =
             [(''user'', Text ''Generate facts''), (''assistant'', Text single_json),
              (''tool'', ToolRecord (PStr ''fact_generator'') (PDict [(''text'', PStr ''Mars'')])
                          (PStr ''Humans finally reached Mars on 27th Feb 2300.''))],
           prompts = [build_initial_prompt (search (\<lambda>step mem. 0 \<le> step))
                        [(''user'', Text ''Generate facts'')]],
           tool_invocations = [(''fact_generator'', [(''text'', PStr ''Mars'')])],
           world_after = [''done'']\<rparr>"
proof -
  let ?A = "search (\<lambda>step mem. 0 \<le> step)"
  let ?p = "build_initial_prompt ?A [(''user'', Text ''Generate facts'')]"
  have p: "parse_tool_call single_json =
      Some [(''tool'', PStr ''fact_generator''), (''args'', PDict [(''text'', PStr ''Mars'')])]"
    by code_simp
  have m: "model ?A ?p [single_json, ''done''] = (Inr single_json, [''done''])"
    by (simp add: search_simps scripted_def)
  have f: "find_tool ?A (PStr ''fact_generator'') = Inr fact_generator"
    by (simp add: find_tool_def search_simps)
  have t: "Tool_run fact_generator (PDict [(''text'', PStr ''Mars'')]) [''done''] =
      \<lparr>result = Inr (PStr ''Humans finally reached Mars on 27th Feb 2300.''),
       invocations = [[(''text'', PStr ''Mars'')]], world = [''done'']\<rparr>"
    by (simp add: Tool_run_def fact_generator_def fact_generator_tool_def isinstance_def)
  have s: "stopped_message (0 + 1) = ''Stopped after 1 steps due to stop condition.''"
    by code_simp
  from stop_condition_ends_run [OF m p _ _ f, of "PDict [(''text'', PStr ''Mars'')]"
      "PStr ''Humans finally reached Mars on 27th Feb 2300.''" 0
      "[(''user'', Text ''Generate facts'')]" 0 "[]" "[]"] t s
  show ?thesis
    by (simp add: Agent_run_def search_simps fact_generator_def)
qed

text \<open>
  C9. \<^verbatim>\<open>add_message\<close> appends one entry to the history and keeps what was there;
  \<^verbatim>\<open>set\<close> leaves the history as it is, and \<^verbatim>\<open>get\<close> returns a value and changes nothing. When
  the router, which holds the state object, only extends the history as well, the
  history at the end of a run of the pool, whether it returns or raises, is the history
  at its start, then the user's message, then the entries added later.
\<close>

theorem history_is_append_only:
  "history (add_message s r c a) = history s @ [\<lparr>role = r, content = c, message.agent = a\<rparr>]
   \<and> history (State_set s key v) = history s
   \<and> ((\<forall>s c l. \<exists>ext. history (snd (router pool s c l)) = history s @ ext)
        \<and> Pool_run pool user_input w = Some out
      \<longrightarrow> (\<exists>ext. history (final_state out) =
             history (state pool)
               @ \<lparr>role = ''user'', content = user_input, message.agent = None\<rparr> # ext))"
proof -
  have "\<exists>ext. history (final_state out) =
             history (state pool)
               @ \<lparr>role = ''user'', content = user_input, message.agent = None\<rparr> # ext"
    if R: "\<forall>s c l. \<exists>ext. history (snd (router pool s c l)) = history s @ ext"
      and P: "Pool_run pool user_input w = Some out"
  proof -
    from P have "pool_loop pool 0 None user_input
        (add_message (state pool) ''user'' user_input None) [] w = Some out"
      by (simp add: Pool_run_def)
    from pool_loop_history_extends [OF R this] show ?thesis
      by (auto simp: add_message_def)
  qed
  then show ?thesis
    by (simp add: add_message_def State_set_def)
qed

theorem history_is_append_only_witness:
  "\<exists>out ext. Pool_run (agent_pool (always ''MathAgent'')) ''hi'' () = Some out
      \<and> history (final_state out) =
          \<lparr>role = ''user'', content = ''hi'', message.agent = None\<rparr> # ext"
proof -
  from pool_loop_reaches_ceiling [OF agent_pool_router agent_pool_agents]
  obtain out where out: "Pool_run (agent_pool (always ''MathAgent'')) ''hi'' () = Some out"
    unfolding Pool_run_def by blast
  have "\<forall>s c l. \<exists>ext. history (snd (router (agent_pool (always ''MathAgent'')) s c l)) = history s @ ext"
    by (simp add: agent_pool_simps always_def)
  with history_is_append_only [of _ _ _ _ _ _ "agent_pool (always ''MathAgent'')" "''hi''" "()" out] out
  show ?thesis
    by (auto simp: agent_pool_simps)
qed

end
